theory Spec2Isabelle
  imports Complex_Main "HOL-Library.List_Lexorder" "HOL-Library.Multiset"
begin

section \<open>Python errors\<close>

text \<open>
  Every exception the modelled methods can raise is a value of \<open>py_error\<close>; a method
  returns \<open>py_error + 'a\<close> with \<open>Inl\<close> for the raised exception. A \<open>ValueError\<close>
  carries its message, since the source raises it at two different places.
\<close>

datatype py_error = IndexError | KeyError | ValueError string | TypeError | AssertionError

definition list_get :: "'a list \<Rightarrow> nat \<Rightarrow> py_error + 'a" where
  \<comment> \<open>\<open>xs[i]\<close> for a non-negative index: out of range raises IndexError.\<close>
  "list_get xs i = (if i < length xs then Inr (xs ! i) else Inl IndexError)"

section \<open>Pauli algebra\<close>

text \<open>
  Modelled from the spec: the Pauli algebra primitives (\<open>multiply_paulis\<close>,
  \<open>multiply_paulis_with_coeff\<close>, \<open>multiply_pauli_list\<close>, the symplectic encoding
  \<open>QubitOp.swap_XZ_blocks\<close>, \<open>pauli_from_symplectic\<close> and the adjacency matrix) live in
  \<open>utils/\<close>, which is not among the source files. A Pauli term is a string over
  I, X, Y, Z; its symplectic vector is the X-support followed by the Z-support (spec,
  section 3). Any other character is read as having the bits of I.
\<close>

type_synonym pauli = string

definition xbit :: "char \<Rightarrow> bool" where
  "xbit c = (c = CHR ''X'' \<or> c = CHR ''Y'')"

definition zbit :: "char \<Rightarrow> bool" where
  "zbit c = (c = CHR ''Z'' \<or> c = CHR ''Y'')"

definition pauli_char :: "bool \<Rightarrow> bool \<Rightarrow> char" where
  "pauli_char x z = (if x then (if z then CHR ''Y'' else CHR ''X'')
                     else (if z then CHR ''Z'' else CHR ''I''))"

definition valid_pauli :: "nat \<Rightarrow> pauli \<Rightarrow> bool" where
  "valid_pauli n P = (length P = n \<and> list_all (\<lambda>c. c = CHR ''I'' \<or> c = CHR ''X'' \<or> c = CHR ''Y'' \<or> c = CHR ''Z'') P)"

definition single_phase :: "char \<Rightarrow> char \<Rightarrow> complex" where
  \<comment> \<open>The phase of the product of two single-qubit Paulis: XY = iZ, YZ = iX, ZX = iY.\<close>
  "single_phase a b =
     (if (a = CHR ''X'' \<and> b = CHR ''Y'') \<or> (a = CHR ''Y'' \<and> b = CHR ''Z'') \<or> (a = CHR ''Z'' \<and> b = CHR ''X'')
      then \<i>
      else if (a = CHR ''Y'' \<and> b = CHR ''X'') \<or> (a = CHR ''Z'' \<and> b = CHR ''Y'') \<or> (a = CHR ''X'' \<and> b = CHR ''Z'')
      then - \<i>
      else 1)"

definition single_mul :: "char \<Rightarrow> char \<Rightarrow> char" where
  "single_mul a b = pauli_char (xbit a \<noteq> xbit b) (zbit a \<noteq> zbit b)"

definition multiply_paulis_with_coeff :: "pauli \<Rightarrow> pauli \<Rightarrow> pauli \<times> complex" where
  \<comment> \<open>Modelled from the spec: the qubit-wise product label and its phase coefficient.\<close>
  "multiply_paulis_with_coeff A B =
     (map2 single_mul A B, prod_list (map2 single_phase A B))"

definition multiply_paulis :: "pauli \<Rightarrow> pauli \<Rightarrow> pauli" where
  \<comment> \<open>Modelled from the spec: the product label, the phase dropped.\<close>
  "multiply_paulis A B = fst (multiply_paulis_with_coeff A B)"

fun multiply_pauli_list :: "pauli list \<Rightarrow> pauli" where
  \<comment> \<open>Modelled from the spec: the product of a tuple of labels, reduced to one label.
      The source calls it on non-empty tuples only.\<close>
  "multiply_pauli_list [] = []"
| "multiply_pauli_list (P # Ps) = foldl multiply_paulis P Ps"

definition commutes :: "pauli \<Rightarrow> pauli \<Rightarrow> bool" where
  \<comment> \<open>Modelled from the spec: two Pauli terms commute (mod phase) iff they differ, both
      non-identity, at an even number of qubits.\<close>
  "commutes P Q =
     even (length (filter (\<lambda>(a, b). a \<noteq> CHR ''I'' \<and> b \<noteq> CHR ''I'' \<and> a \<noteq> b) (zip P Q)))"

section \<open>The classical objective function (cs_vqe)\<close>

text \<open>
  Coefficients, eigenvalues and the angle are Python floats; they are modelled as reals.
  The Hamiltonian is the dictionary \<open>hamiltonian._dict\<close>, a map from labels to
  coefficients. \<open>input_params\<close> is the optimizer's dictionary with the key \<open>theta\<close> and
  one key \<open>q{i}\<close> per generator index \<open>i\<close>.
\<close>

type_synonym hamiltonian = "pauli \<rightharpoonup> real"

type_synonym objective_term = "real \<times> nat list \<times> real list"

record input_params =
  theta :: "real option"
  qval :: "nat \<rightharpoonup> real"

fun combinations :: "'a list \<Rightarrow> nat \<Rightarrow> 'a list list" where
  \<comment> \<open>\<open>itertools.combinations(xs, k)\<close>: the k-element selections in index order.\<close>
  "combinations xs 0 = [[]]"
| "combinations [] (Suc k) = []"
| "combinations (x # xs) (Suc k) = map ((#) x) (combinations xs k) @ combinations xs (Suc k)"

fun index_of :: "'a list \<Rightarrow> 'a \<Rightarrow> nat" where
  \<comment> \<open>\<open>G.index(op)\<close>: the first position of \<open>op\<close>. It is only called on members of \<open>G\<close>.\<close>
  "index_of [] y = 0"
| "index_of (x # xs) y = (if x = y then 0 else Suc (index_of xs y))"

definition G_combs :: "'a list \<Rightarrow> 'a list list" where
  "G_combs G = concat (map (combinations G) [1 ..< length G + 1])"

definition G_closure :: "nat \<Rightarrow> pauli list \<Rightarrow> (pauli \<times> nat list) list" where
  "G_closure n_qubits G =
     map (\<lambda>comb. (multiply_pauli_list comb, map (index_of G) comb)) (G_combs G)
     @ [(replicate n_qubits (CHR ''I''), [])]"

definition coeff_or_zero :: "hamiltonian \<Rightarrow> pauli \<Rightarrow> real" where
  \<comment> \<open>\<open>try: h = hamiltonian._dict[op]  except: h = 0\<close>\<close>
  "coeff_or_zero H P = (case H P of Some h \<Rightarrow> h | None \<Rightarrow> 0)"

definition objective_entry :: "hamiltonian \<Rightarrow> pauli list \<Rightarrow> pauli \<times> nat list \<Rightarrow> objective_term" where
  "objective_entry H C e =
     (case e of (G_op, q_indices) \<Rightarrow>
        (coeff_or_zero H G_op, q_indices,
         map (\<lambda>C_op. coeff_or_zero H (multiply_paulis G_op C_op)) C))"

definition retained :: "objective_term \<Rightarrow> bool" where
  \<comment> \<open>\<open>h_G != 0 or not np.all(np.array(C_vec) == 0)\<close>\<close>
  "retained t = (case t of (h_G, q_indices, C_vec) \<Rightarrow> h_G \<noteq> 0 \<or> \<not> list_all (\<lambda>c. c = 0) C_vec)"

definition classical_obj_fnc_params :: "hamiltonian \<Rightarrow> nat \<Rightarrow> pauli list \<Rightarrow> pauli list \<Rightarrow> objective_term list" where
  "classical_obj_fnc_params H n_qubits G C =
     filter retained (map (objective_entry H C) (G_closure n_qubits G))"

fun q_values :: "(nat \<rightharpoonup> real) \<Rightarrow> nat list \<Rightarrow> py_error + real list" where
  \<comment> \<open>\<open>[input_params[f'q{i}'] for i in q_indices]\<close>: a missing key raises KeyError.\<close>
  "q_values q [] = Inr []"
| "q_values q (i # is) =
     (case q i of None \<Rightarrow> Inl KeyError
      | Some v \<Rightarrow> (case q_values q is of Inl e \<Rightarrow> Inl e | Inr vs \<Rightarrow> Inr (v # vs)))"

fun objfnc_loop :: "real \<Rightarrow> (nat \<rightharpoonup> real) \<Rightarrow> objective_term list \<Rightarrow> real \<Rightarrow> py_error + real" where
  "objfnc_loop t q [] objfnc_sum = Inr objfnc_sum"
| "objfnc_loop t q ((h_G, q_indices, h_GCs) # rest) objfnc_sum =
     (case q_values q q_indices of Inl e \<Rightarrow> Inl e
      | Inr qs \<Rightarrow>
     (case list_get h_GCs 0 of Inl e \<Rightarrow> Inl e
      | Inr c0 \<Rightarrow>
     (case list_get h_GCs 1 of Inl e \<Rightarrow> Inl e
      | Inr c1 \<Rightarrow>
        objfnc_loop t q rest (objfnc_sum + (h_G + sin t * c0 + cos t * c1) * prod_list qs))))"

definition classical_obj_fnc :: "objective_term list \<Rightarrow> input_params \<Rightarrow> py_error + real" where
  "classical_obj_fnc objfncprms p =
     (case theta p of None \<Rightarrow> Inl KeyError
      | Some t \<Rightarrow> objfnc_loop t (qval p) objfncprms 0)"

definition term_energy :: "real \<Rightarrow> (nat \<Rightarrow> real) \<Rightarrow> objective_term \<Rightarrow> real" where
  \<comment> \<open>One summand of the spec's energy: (h_G + sin t h_GC1 + cos t h_GC2) times the
      product of the assigned eigenvalues over the index set.\<close>
  "term_energy t qv tm =
     (case tm of (h_G, q_indices, h_GCs) \<Rightarrow>
        (h_G + sin t * (h_GCs ! 0) + cos t * (h_GCs ! 1)) * prod_list (map qv q_indices))"

subsection \<open>The objective function on two-clique terms\<close>

lemma q_values_total:
  "\<forall>i \<in> set is. q i = Some (qv i) \<Longrightarrow> q_values q is = Inr (map qv is)"
  by (induction "is") auto

lemma objfnc_loop_sum:
  assumes "\<forall>tm \<in> set prms. (\<forall>i \<in> set (fst (snd tm)). q i = Some (qv i)) \<and> 2 \<le> length (snd (snd tm))"
  shows "objfnc_loop t q prms acc = Inr (acc + sum_list (map (term_energy t qv) prms))"
  using assms
proof (induction prms arbitrary: acc)
  case Nil
  then show ?case by simp
next
  case (Cons tm prms)
  obtain h_G q_indices h_GCs where tm: "tm = (h_G, q_indices, h_GCs)"
    by (cases tm) auto
  from Cons.prems tm have qs: "q_values q q_indices = Inr (map qv q_indices)"
    by (intro q_values_total) auto
  from Cons.prems tm have len: "2 \<le> length h_GCs" by auto
  from Cons.prems have rest:
    "\<forall>tm \<in> set prms. (\<forall>i \<in> set (fst (snd tm)). q i = Some (qv i)) \<and> 2 \<le> length (snd (snd tm))"
    by auto
  from len have "0 < length h_GCs" "1 < length h_GCs" by auto
  then show ?case
    by (simp add: tm qs list_get_def Cons.IH[OF rest] term_energy_def algebra_simps)
qed

text \<open>
  C2. For a stored list of ObjectiveTerms (each with its pair of clique coefficients), an
  input that gives the angle theta and assigns an eigenvalue in \<open>{-1, +1}\<close> to every
  generator index used, \<open>classical_obj_fnc\<close> returns exactly the sum over the terms of
  (h_G + sin(theta) h_GC1 + cos(theta) h_GC2) times the product of the q_i over the
  term's index set.
\<close>

theorem classical_obj_fnc_is_energy_sum:
  assumes "theta p = Some t"
    and "\<forall>tm \<in> set objfncprms. \<forall>i \<in> set (fst (snd tm)). qval p i = Some (qv i) \<and> (qv i = 1 \<or> qv i = -1)"
    and "\<forall>tm \<in> set objfncprms. length (snd (snd tm)) = 2"
  shows "classical_obj_fnc objfncprms p = Inr (\<Sum>tm \<leftarrow> objfncprms. term_energy t qv tm)"
proof -
  have "\<forall>tm \<in> set objfncprms. (\<forall>i \<in> set (fst (snd tm)). qval p i = Some (qv i)) \<and> 2 \<le> length (snd (snd tm))"
    using assms(2,3) by auto
  from objfnc_loop_sum[OF this] show ?thesis
    using assms(1) by (simp add: classical_obj_fnc_def)
qed

theorem classical_obj_fnc_is_energy_sum_witness:
  "classical_obj_fnc [(1/2, [0], [1/4, 3]), (2, [0, 1], [0, 1])] \<lparr>theta = Some 0, qval = [0 \<mapsto> 1, 1 \<mapsto> -1]\<rparr>
     = Inr (\<Sum>tm \<leftarrow> [(1/2, [0], [1/4, 3]), (2, [0, 1], [0, 1])]. term_energy 0 (\<lambda>i. if i = 0 then 1 else -1) tm)"
  using classical_obj_fnc_is_energy_sum[of "\<lparr>theta = Some 0, qval = [0 \<mapsto> 1, 1 \<mapsto> -1]\<rparr>" 0
      "[(1/2, [0], [1/4, 3]), (2, [0, 1], [0, 1])]" "\<lambda>i. if i = 0 then 1 else -1"]
  by simp

subsection \<open>One clique representative\<close>

lemma combinations_subset: "ys \<in> set (combinations xs k) \<Longrightarrow> set ys \<subseteq> set xs"
  by (induction xs k arbitrary: ys rule: combinations.induct) fastforce+

lemma index_of_less: "y \<in> set xs \<Longrightarrow> index_of xs y < length xs"
  by (induction xs) auto

lemma G_closure_indices:
  assumes "e \<in> set (G_closure n G)" and "i \<in> set (snd e)"
  shows "i < length G"
proof -
  from assms obtain comb where comb: "comb \<in> set (G_combs G)" and i: "i \<in> set (map (index_of G) comb)"
    by (auto simp: G_closure_def)
  from comb have "set comb \<subseteq> set G"
    by (auto simp: G_combs_def dest: combinations_subset)
  with i show ?thesis
    by (auto intro: index_of_less)
qed

lemma q_values_defined:
  "\<forall>i \<in> set is. q i \<noteq> None \<Longrightarrow> \<exists>vs. q_values q is = Inr vs"
  by (induction "is") auto

lemma params_single_clique:
  assumes "tm \<in> set (classical_obj_fnc_params H n G [c])"
  shows "length (snd (snd tm)) = 1 \<and> (\<forall>i \<in> set (fst (snd tm)). i < length G)"
proof -
  from assms obtain e where e: "e \<in> set (G_closure n G)" and tm: "tm = objective_entry H [c] e"
    by (auto simp: classical_obj_fnc_params_def)
  show ?thesis
    using G_closure_indices[OF e] by (auto simp: tm objective_entry_def split: prod.splits)
qed

text \<open>
  C6 (as stated, refuted). With a single clique representative X for the generator Z
  of the one-qubit Hamiltonian Z, the stored list holds the one term (1, [0], [0]); its
  clique-coefficient list has one entry and the evaluation raises IndexError on
  \<open>h_GCs[1]\<close> instead of returning a value.
\<close>

theorem classical_obj_fnc_single_clique_fails:
  "classical_obj_fnc_params [''Z'' \<mapsto> 1] 1 [''Z''] [''X''] = [(1, [0], [0])]
   \<and> classical_obj_fnc (classical_obj_fnc_params [''Z'' \<mapsto> 1] 1 [''Z''] [''X''])
        \<lparr>theta = Some 0, qval = [0 \<mapsto> 1]\<rparr> = Inl IndexError"
proof -
  have combs: "G_combs [''Z''] = [[''Z'']]"
    by (simp add: G_combs_def upt_rec)
  have "classical_obj_fnc_params [''Z'' \<mapsto> 1] 1 [''Z''] [''X''] = [(1, [0], [0])]"
    by (simp add: classical_obj_fnc_params_def G_closure_def combs objective_entry_def
        coeff_or_zero_def retained_def multiply_paulis_def multiply_paulis_with_coeff_def
        single_mul_def xbit_def zbit_def pauli_char_def)
  then show ?thesis
    by (simp add: classical_obj_fnc_def list_get_def)
qed

text \<open>
  C6 (amended). With exactly one clique representative every stored term carries a
  one-element clique-coefficient list. Given theta and a value for every generator index,
  \<open>classical_obj_fnc\<close> raises IndexError whenever the stored list is non-empty, and returns
  0, whatever theta is, only when the stored list is empty.
\<close>

theorem classical_obj_fnc_single_clique:
  assumes "theta p = Some t" and "\<forall>i < length G. qval p i \<noteq> None"
  shows "classical_obj_fnc (classical_obj_fnc_params H n G [c]) p =
           (if classical_obj_fnc_params H n G [c] = [] then Inr 0 else Inl IndexError)"
proof (cases "classical_obj_fnc_params H n G [c]")
  case Nil
  then show ?thesis
    using assms(1) by (simp add: classical_obj_fnc_def)
next
  case (Cons tm rest)
  obtain h_G q_indices h_GCs where tm: "tm = (h_G, q_indices, h_GCs)"
    by (cases tm) auto
  have "tm \<in> set (classical_obj_fnc_params H n G [c])"
    by (simp add: Cons)
  from params_single_clique[OF this] have len: "length h_GCs = 1" and idx: "\<forall>i \<in> set q_indices. i < length G"
    by (auto simp: tm)
  from idx assms(2) have "\<forall>i \<in> set q_indices. qval p i \<noteq> None"
    by auto
  from q_values_defined[OF this] obtain vs where vs: "q_values (qval p) q_indices = Inr vs"
    by blast
  show ?thesis
    using assms(1) len by (simp add: classical_obj_fnc_def Cons tm vs list_get_def)
qed

theorem classical_obj_fnc_single_clique_witness:
  "classical_obj_fnc (classical_obj_fnc_params [''Z'' \<mapsto> 1] 1 [''Z''] [''X''])
        \<lparr>theta = Some (1/2), qval = [0 \<mapsto> 1]\<rparr> =
     (if classical_obj_fnc_params [''Z'' \<mapsto> 1] 1 [''Z''] [''X''] = [] then Inr 0 else Inl IndexError)"
  using classical_obj_fnc_single_clique[of "\<lparr>theta = Some (1/2), qval = [0 \<mapsto> 1]\<rparr>" "1/2" "[''Z'']"
      "[''Z'' \<mapsto> 1]" 1 "''X''"]
  by simp

subsection \<open>The closure of the generators\<close>

lemma combinations_map: "combinations (map f xs) k = map (map f) (combinations xs k)"
  by (induction xs k rule: combinations.induct) auto

lemma length_combinations: "length (combinations xs k) = length xs choose k"
  by (induction xs k rule: combinations.induct) auto

lemma combinations_length: "ys \<in> set (combinations xs k) \<Longrightarrow> length ys = k"
  by (induction xs k arbitrary: ys rule: combinations.induct) auto

lemma distinct_combinations: "distinct xs \<Longrightarrow> distinct (combinations xs k)"
proof (induction xs k rule: combinations.induct)
  case (3 x xs k)
  have "distinct (map ((#) x) (combinations xs k))"
    using 3 by (simp add: distinct_map)
  moreover have "distinct (combinations xs (Suc k))"
    using 3 by simp
  moreover have "set (map ((#) x) (combinations xs k)) \<inter> set (combinations xs (Suc k)) = {}"
    using 3(3) by (auto dest: combinations_subset)
  ultimately show ?case by simp
qed simp_all

lemma combinations_sorted:
  fixes xs :: "'a::linorder list"
  shows "sorted_wrt (<) xs \<Longrightarrow>
   set (combinations xs k) = {ys. length ys = k \<and> sorted_wrt (<) ys \<and> set ys \<subseteq> set xs}"
proof (induction xs k rule: combinations.induct)
  case (1 xs)
  then show ?case by auto
next
  case (2 k)
  then show ?case by auto
next
  case (3 x xs k)
  from 3(3) have sx: "sorted_wrt (<) xs" and lt: "\<forall>y \<in> set xs. x < y" by auto
  note IH1 = 3(1)[OF sx] and IH2 = 3(2)[OF sx]
  show ?case
  proof (intro set_eqI iffI)
    fix ys assume "ys \<in> set (combinations (x # xs) (Suc k))"
    then consider zs where "ys = x # zs" "zs \<in> set (combinations xs k)" | "ys \<in> set (combinations xs (Suc k))"
      by auto
    then show "ys \<in> {ys. length ys = Suc k \<and> sorted_wrt (<) ys \<and> set ys \<subseteq> set (x # xs)}"
    proof cases
      case 1
      then show ?thesis using IH1 lt by auto
    next
      case 2
      then show ?thesis using IH2 by auto
    qed
  next
    fix ys assume "ys \<in> {ys. length ys = Suc k \<and> sorted_wrt (<) ys \<and> set ys \<subseteq> set (x # xs)}"
    then have len: "length ys = Suc k" and so: "sorted_wrt (<) ys" and sub: "set ys \<subseteq> insert x (set xs)"
      by auto
    from len obtain y zs where ys: "ys = y # zs" by (cases ys) auto
    from so ys have sz: "sorted_wrt (<) zs" and ylt: "\<forall>z \<in> set zs. y < z" by auto
    show "ys \<in> set (combinations (x # xs) (Suc k))"
    proof (cases "y = x")
      case True
      have "\<forall>z \<in> set zs. z \<noteq> x" using ylt True by auto
      then have "set zs \<subseteq> set xs" using sub ys by auto
      then have "zs \<in> set (combinations xs k)" using IH1 sz len ys by auto
      then show ?thesis using True ys by simp
    next
      case False
      then have "y \<in> set xs" using sub ys by auto
      then have "x < y" using lt by auto
      then have "set zs \<subseteq> set xs" using sub ys ylt by fastforce
      then have "ys \<in> set (combinations xs (Suc k))"
        using IH2 so len ys \<open>y \<in> set xs\<close> by auto
      then show ?thesis by simp
    qed
  qed
qed

lemma distinct_concat_by_key:
  "distinct ks \<Longrightarrow> (\<forall>k \<in> set ks. distinct (f k)) \<Longrightarrow> (\<forall>k \<in> set ks. \<forall>y \<in> set (f k). g y = k)
   \<Longrightarrow> distinct (concat (map f ks))"
  by (induction ks) auto

lemma index_of_nth: "distinct xs \<Longrightarrow> i < length xs \<Longrightarrow> index_of xs (xs ! i) = i"
proof (induction xs arbitrary: i)
  case (Cons x xs)
  then show ?case by (cases i) auto
qed simp

lemma length_G_combs: "length (G_combs xs) = 2 ^ length xs - 1"
proof -
  let ?m = "length xs"
  have "length (G_combs xs) = (\<Sum>k \<leftarrow> [1 ..< ?m + 1]. ?m choose k)"
    by (simp add: G_combs_def length_concat comp_def length_combinations del: upt_Suc)
  also have "\<dots> = (\<Sum>k = 1 ..< ?m + 1. ?m choose k)"
    by (simp add: interv_sum_list_conv_sum_set_nat del: upt_Suc)
  also have "\<dots> = (\<Sum>k \<le> ?m. ?m choose k) - 1"
  proof -
    have "{..?m} = insert 0 {1 ..< ?m + 1}" by auto
    then show ?thesis by simp
  qed
  also have "\<dots> = 2 ^ ?m - 1"
    by (simp add: choose_row_sum)
  finally show ?thesis .
qed

lemma distinct_G_combs: "distinct xs \<Longrightarrow> distinct (G_combs xs)"
  unfolding G_combs_def
  by (rule distinct_concat_by_key[where g = length])
     (auto simp: distinct_combinations combinations_length)

lemma set_G_combs_upt:
  "set (G_combs [0 ..< m]) = {is. is \<noteq> [] \<and> sorted_wrt (<) is \<and> set is \<subseteq> {..< m}}"
proof -
  have so: "sorted_wrt (<) [0 ..< m]" by simp
  have len: "length is \<le> m" if "sorted_wrt (<) is" "set is \<subseteq> {..< m}" for "is" :: "nat list"
  proof -
    from that(1) have "distinct is" by (simp add: strict_sorted_iff)
    then have "length is = card (set is)" by (simp add: distinct_card)
    also have "\<dots> \<le> card {..< m}" using that(2) by (intro card_mono) auto
    finally show ?thesis by simp
  qed
  show ?thesis
  proof (intro set_eqI iffI)
    fix "is" assume "is \<in> set (G_combs [0 ..< m])"
    then obtain k where "1 \<le> k" "is \<in> set (combinations [0 ..< m] k)"
      by (auto simp: G_combs_def simp del: upt_Suc)
    then show "is \<in> {is. is \<noteq> [] \<and> sorted_wrt (<) is \<and> set is \<subseteq> {..< m}}"
      by (auto simp: combinations_sorted[OF so])
  next
    fix "is" assume "is \<in> {is. is \<noteq> [] \<and> sorted_wrt (<) is \<and> set is \<subseteq> {..< m}}"
    then have ne: "is \<noteq> []" and s: "sorted_wrt (<) is" and sub: "set is \<subseteq> {..< m}"
      by auto
    from ne have "1 \<le> length is" by (cases "is") auto
    moreover have "length is < m + 1" using len[OF s sub] by simp
    moreover have "is \<in> set (combinations [0 ..< m] (length is))"
      using s sub by (auto simp: combinations_sorted[OF so])
    ultimately show "is \<in> set (G_combs [0 ..< m])"
      by (auto simp: G_combs_def simp del: upt_Suc)
  qed
qed

lemma G_combs_nth: "G_combs G = map (map ((!) G)) (G_combs [0 ..< length G])"
proof -
  have "combinations G k = map (map ((!) G)) (combinations [0 ..< length G] k)" for k
    using combinations_map[of "(!) G" "[0 ..< length G]" k] by (simp add: map_nth)
  then have "combinations G = (\<lambda>k. map (map ((!) G)) (combinations [0 ..< length G] k))"
    by (intro ext)
  then show ?thesis
    unfolding G_combs_def
    by (subst \<open>combinations G = _\<close>) (simp add: map_concat comp_def del: upt_Suc)
qed

lemma G_closure_by_indices:
  assumes "distinct G"
  shows "G_closure n G =
           map (\<lambda>is. (multiply_pauli_list (map ((!) G) is), is)) (G_combs [0 ..< length G])
           @ [(replicate n (CHR ''I''), [])]"
proof -
  have idx: "map (index_of G) (map ((!) G) is) = is" if "is \<in> set (G_combs [0 ..< length G])" for "is"
  proof -
    from that have "set is \<subseteq> {..< length G}"
      by (simp add: set_G_combs_upt)
    then have "\<forall>i \<in> set is. index_of G (G ! i) = i"
      using index_of_nth[OF assms] by auto
    then show ?thesis
      by (simp add: map_idI)
  qed
  have "map (\<lambda>comb. (multiply_pauli_list comb, map (index_of G) comb)) (G_combs G) =
        map (\<lambda>is. (multiply_pauli_list (map ((!) G) is), map (index_of G) (map ((!) G) is))) (G_combs [0 ..< length G])"
    by (subst G_combs_nth) (simp add: comp_def)
  also have "\<dots> = map (\<lambda>is. (multiply_pauli_list (map ((!) G) is), is)) (G_combs [0 ..< length G])"
    using idx by (intro map_cong) auto
  finally show ?thesis
    by (simp add: G_closure_def)
qed

lemma retained_entries:
  "filter retained (map (objective_entry H C) es) =
     [(coeff_or_zero H P, is, map (\<lambda>c. coeff_or_zero H (multiply_paulis P c)) C).
        (P, is) \<leftarrow> es,
        coeff_or_zero H P \<noteq> 0 \<or> (\<exists>c \<in> set C. coeff_or_zero H (multiply_paulis P c) \<noteq> 0)]"
proof (induction es)
  case Nil
  then show ?case by simp
next
  case (Cons e es)
  obtain P "is" where e: "e = (P, is)" by (cases e) auto
  have "retained (objective_entry H C (P, is)) =
          (coeff_or_zero H P \<noteq> 0 \<or> (\<exists>c \<in> set C. coeff_or_zero H (multiply_paulis P c) \<noteq> 0))"
    by (simp add: retained_def objective_entry_def list_all_iff)
  moreover have "objective_entry H C (P, is) =
          (coeff_or_zero H P, is, map (\<lambda>c. coeff_or_zero H (multiply_paulis P c)) C)"
    by (simp add: objective_entry_def)
  ultimately show ?case
    using Cons.IH by (simp add: e)
qed

text \<open>
  C4. For distinct generators G of size m, the closure lists the products of all
  2^m - 1 non-empty subsets of G, each once and each with exactly the (increasing) list of
  generator indices that produced it, followed by the all-identity term with the empty
  index list; a label absent from the Hamiltonian has coefficient 0; and the retained
  terms are exactly the closure elements whose own coefficient is non-zero or that have
  a non-zero clique-product coefficient.
\<close>

theorem classical_obj_fnc_params_closure:
  assumes "distinct G"
  shows "\<exists>ISs. distinct ISs
           \<and> set ISs = {is. is \<noteq> [] \<and> sorted_wrt (<) is \<and> set is \<subseteq> {..< length G}}
           \<and> length ISs = 2 ^ length G - 1
           \<and> G_closure n G =
               map (\<lambda>is. (multiply_pauli_list (map ((!) G) is), is)) ISs @ [(replicate n (CHR ''I''), [])]
           \<and> classical_obj_fnc_params H n G C =
               [(coeff_or_zero H P, is, map (\<lambda>c. coeff_or_zero H (multiply_paulis P c)) C).
                  (P, is) \<leftarrow> G_closure n G,
                  coeff_or_zero H P \<noteq> 0 \<or> (\<exists>c \<in> set C. coeff_or_zero H (multiply_paulis P c) \<noteq> 0)]
           \<and> (\<forall>P. coeff_or_zero H P = (if P \<in> dom H then the (H P) else 0))"
proof (intro exI[of _ "G_combs [0 ..< length G]"] conjI)
  show "distinct (G_combs [0 ..< length G])"
    by (rule distinct_G_combs) simp
  show "set (G_combs [0 ..< length G]) = {is. is \<noteq> [] \<and> sorted_wrt (<) is \<and> set is \<subseteq> {..< length G}}"
    by (rule set_G_combs_upt)
  show "length (G_combs [0 ..< length G]) = 2 ^ length G - 1"
    by (simp add: length_G_combs)
  show "G_closure n G =
          map (\<lambda>is. (multiply_pauli_list (map ((!) G) is), is)) (G_combs [0 ..< length G])
          @ [(replicate n (CHR ''I''), [])]"
    by (rule G_closure_by_indices[OF assms])
  show "classical_obj_fnc_params H n G C =
          [(coeff_or_zero H P, is, map (\<lambda>c. coeff_or_zero H (multiply_paulis P c)) C).
             (P, is) \<leftarrow> G_closure n G,
             coeff_or_zero H P \<noteq> 0 \<or> (\<exists>c \<in> set C. coeff_or_zero H (multiply_paulis P c) \<noteq> 0)]"
    unfolding classical_obj_fnc_params_def by (rule retained_entries)
  show "\<forall>P. coeff_or_zero H P = (if P \<in> dom H then the (H P) else 0)"
    by (auto simp: coeff_or_zero_def split: option.splits)
qed

theorem classical_obj_fnc_params_closure_witness:
  "distinct [''ZI'', ''IZ''] \<and>
   (\<exists>ISs. distinct ISs
           \<and> set ISs = {is. is \<noteq> [] \<and> sorted_wrt (<) is \<and> set is \<subseteq> {..< length [''ZI'', ''IZ'']}}
           \<and> length ISs = 2 ^ length [''ZI'', ''IZ''] - 1
           \<and> G_closure 2 [''ZI'', ''IZ''] =
               map (\<lambda>is. (multiply_pauli_list (map ((!) [''ZI'', ''IZ'']) is), is)) ISs @ [(replicate 2 (CHR ''I''), [])]
           \<and> classical_obj_fnc_params [''ZZ'' \<mapsto> 1/2] 2 [''ZI'', ''IZ''] [''XI'', ''YI''] =
               [(coeff_or_zero [''ZZ'' \<mapsto> 1/2] P, is, map (\<lambda>c. coeff_or_zero [''ZZ'' \<mapsto> 1/2] (multiply_paulis P c)) [''XI'', ''YI'']).
                  (P, is) \<leftarrow> G_closure 2 [''ZI'', ''IZ''],
                  coeff_or_zero [''ZZ'' \<mapsto> 1/2] P \<noteq> 0
                  \<or> (\<exists>c \<in> set [''XI'', ''YI'']. coeff_or_zero [''ZZ'' \<mapsto> 1/2] (multiply_paulis P c) \<noteq> 0)]
           \<and> (\<forall>P. coeff_or_zero [''ZZ'' \<mapsto> 1/2] P = (if P \<in> dom ([''ZZ'' \<mapsto> 1/2] :: hamiltonian) then the ([''ZZ'' \<mapsto> 1/2] P) else 0)))"
proof -
  have d: "distinct [''ZI'', ''IZ'']" by simp
  show ?thesis
    by (rule conjI[OF d]) (rule classical_obj_fnc_params_closure[OF d])
qed

section \<open>Unitary partitioning rotation (cs_vqe)\<close>

text \<open>
  \<open>anti_clique_operator\<close> is the dictionary built from \<open>zip(cliquereps, r)\<close>; its items
  are modelled as the list of (label, weight) pairs in insertion order. \<open>sorted\<close> is
  stable, as \<open>sort_key\<close> is. Unpacking \<open>Aa, Bb = order_terms\<close> raises ValueError unless
  there are exactly two items.
\<close>

definition xy_count :: "pauli \<Rightarrow> nat" where
  \<comment> \<open>The sort key: \<open>x[0].count('X') + x[0].count('Y')\<close>\<close>
  "xy_count P = count_list P (CHR ''X'') + count_list P (CHR ''Y'')"

definition order_terms :: "(pauli \<times> real) list \<Rightarrow> (pauli \<times> real) list" where
  "order_terms anti_clique_operator = sort_key (\<lambda>x. xy_count (fst x)) anti_clique_operator"

definition py_int :: "real \<Rightarrow> int" where
  \<comment> \<open>\<open>int(x)\<close> of a float truncates towards zero.\<close>
  "py_int x = (if 0 \<le> x then \<lfloor>x\<rfloor> else \<lceil>x\<rceil>)"

definition rotation_angle :: "real \<Rightarrow> real \<Rightarrow> int \<Rightarrow> real" where
  \<comment> \<open>\<open>t = np.arctan(-b/a)*sign; if abs(a+np.cos(t)) < 1e-15: t += np.pi\<close>\<close>
  "rotation_angle a b sign =
     (let t = arctan (- b / a) * of_int sign
      in if \<bar>a + cos t\<bar> < 1 / 10 ^ 15 then t + pi else t)"

definition unitary_partitioning_rotation :: "(pauli \<times> real) list \<Rightarrow> py_error + (pauli \<times> real)" where
  "unitary_partitioning_rotation anti_clique_operator =
     (case order_terms anti_clique_operator of
        [(A, a), (B, b)] \<Rightarrow>
          if a = 0 \<or> b = 0 then Inl (ValueError ''Clique operator already contains one term'')
          else (case multiply_paulis_with_coeff A B of
                  (Q, coeff) \<Rightarrow> Inr (Q, rotation_angle a b (py_int (Re (\<i> * coeff)))))
      | _ \<Rightarrow> Inl (ValueError ''wrong number of values to unpack''))"

definition nonidentity_count :: "pauli \<Rightarrow> nat" where
  \<comment> \<open>The spec's measure: the number of non-identity single-qubit factors.\<close>
  "nonidentity_count P = length (filter (\<lambda>c. c \<noteq> CHR ''I'') P)"

definition spec_order_terms :: "(pauli \<times> real) list \<Rightarrow> (pauli \<times> real) list" where
  \<comment> \<open>The order in the spec's words: the term with fewer non-identity factors first.\<close>
  "spec_order_terms anti_clique_operator = sort_key (\<lambda>x. nonidentity_count (fst x)) anti_clique_operator"

lemma order_terms_pair:
  "order_terms [(P1, w1), (P2, w2)] =
     (if xy_count P1 \<le> xy_count P2 then [(P1, w1), (P2, w2)] else [(P2, w2), (P1, w1)])"
  by (simp add: order_terms_def)

text \<open>
  C7. On the two clique representatives, \<open>unitary_partitioning_rotation\<close> raises an error
  if and only if one of the two weights is exactly zero; the error is the ValueError of
  the check that precedes the product and the angle, whatever the two labels are; when
  both weights are non-zero a pair (Q, t) is returned.
\<close>

theorem unitary_partitioning_rotation_error_iff:
  "(case unitary_partitioning_rotation [(P1, w1), (P2, w2)] of
      Inl e \<Rightarrow> (w1 = 0 \<or> w2 = 0) \<and> e = ValueError ''Clique operator already contains one term''
    | Inr (Q, t) \<Rightarrow> w1 \<noteq> 0 \<and> w2 \<noteq> 0)"
  by (auto simp: unitary_partitioning_rotation_def order_terms_pair split: prod.splits)

text \<open>
  C8 (as stated, refuted). For the anticommuting pair XII (weight 3/5) and ZZZ (weight
  4/5) the sort puts ZZZ first, since it has no X or Y factor: the weight a of the angle
  is the coefficient of ZZZ, the term with more non-identity factors, and the angle
  returned differs from the one obtained with the spec's order.
\<close>

theorem unitary_partitioning_weight_order_counterexample:
  "order_terms [(''XII'', 3/5), (''ZZZ'', 4/5)] = [(''ZZZ'', 4/5), (''XII'', 3/5)]
   \<and> spec_order_terms [(''XII'', 3/5), (''ZZZ'', 4/5)] = [(''XII'', 3/5), (''ZZZ'', 4/5)]
   \<and> nonidentity_count ''XII'' < nonidentity_count ''ZZZ''
   \<and> unitary_partitioning_rotation [(''XII'', 3/5), (''ZZZ'', 4/5)]
        = Inr (''YZZ'', rotation_angle (4/5) (3/5) (-1))
   \<and> rotation_angle (4/5) (3/5) (-1) = arctan (3/4)
   \<and> rotation_angle (4/5) (3/5) (-1) \<noteq> rotation_angle (3/5) (4/5) 1"
proof -
  have pos: "0 < cos (arctan x)" for x :: real
    by (simp add: cos_arctan add_pos_nonneg)
  have t1: "rotation_angle (4/5) (3/5) (-1) = arctan (3/4)"
  proof -
    have "\<not> \<bar>4/5 + cos (arctan (3/4))\<bar> < 1 / 10 ^ 15"
      using pos[of "3/4"] by simp
    then show ?thesis
      by (simp add: rotation_angle_def Let_def arctan_minus)
  qed
  have t2: "rotation_angle (3/5) (4/5) 1 = - arctan (4/3)"
  proof -
    have "\<not> \<bar>3/5 + cos (arctan (4/3))\<bar> < 1 / 10 ^ 15"
      using pos[of "4/3"] by simp
    then show ?thesis
      by (simp add: rotation_angle_def Let_def arctan_minus)
  qed
  have ne: "arctan (3/4) \<noteq> - arctan (4/3 :: real)"
  proof -
    have "0 < arctan (3/4 :: real)" "0 < arctan (4/3 :: real)"
      by (simp_all add: zero_less_arctan_iff)
    then show ?thesis by linarith
  qed
  have ord: "order_terms [(''XII'', 3/5), (''ZZZ'', 4/5)] = [(''ZZZ'', 4/5), (''XII'', 3/5)]"
    by (simp add: order_terms_pair xy_count_def)
  have upr: "unitary_partitioning_rotation [(''XII'', 3/5), (''ZZZ'', 4/5)]
        = Inr (''YZZ'', rotation_angle (4/5) (3/5) (-1))"
    by (simp add: unitary_partitioning_rotation_def ord multiply_paulis_with_coeff_def
        single_mul_def single_phase_def xbit_def zbit_def pauli_char_def py_int_def ceiling_minus)
  show ?thesis
    using ord upr t1 t2 ne
    by (simp add: spec_order_terms_def nonidentity_count_def)
qed

text \<open>
  C8 (amended). For two clique representatives with non-zero weights, the weight a of
  the angle t = sign * arctan(-b/a) is the coefficient of the representative with the
  fewer X or Y factors (the first listed on a tie), b is the coefficient of the other,
  and the product Q and the sign are taken in that order.
\<close>

theorem unitary_partitioning_weight_order:
  assumes "w1 \<noteq> 0" and "w2 \<noteq> 0"
  shows "unitary_partitioning_rotation [(P1, w1), (P2, w2)] =
           (if xy_count P1 \<le> xy_count P2
            then Inr (fst (multiply_paulis_with_coeff P1 P2),
                      rotation_angle w1 w2 (py_int (Re (\<i> * snd (multiply_paulis_with_coeff P1 P2)))))
            else Inr (fst (multiply_paulis_with_coeff P2 P1),
                      rotation_angle w2 w1 (py_int (Re (\<i> * snd (multiply_paulis_with_coeff P2 P1))))))"
  using assms
  by (simp add: unitary_partitioning_rotation_def order_terms_pair split: prod.splits)

theorem unitary_partitioning_weight_order_witness:
  "unitary_partitioning_rotation [(''ZI'', 3/5), (''XI'', 4/5)] =
     Inr (fst (multiply_paulis_with_coeff ''ZI'' ''XI''),
          rotation_angle (3/5) (4/5) (py_int (Re (\<i> * snd (multiply_paulis_with_coeff ''ZI'' ''XI'')))))"
  using unitary_partitioning_weight_order[of "3/5" "4/5" "''ZI''" "''XI''"]
  by (simp add: xy_count_def)

section \<open>The noncontextual ground state (cs_vqe)\<close>

text \<open>
  \<open>noncontextual_ground_state\<close> calls \<open>self.contextual_subspace_hamiltonian\<close> with the
  keywords \<open>stabilizer_indices\<close> and \<open>projection_qubits\<close>; the method is declared with the
  single parameter \<open>stabilizer_indices\<close>. Python binds the keywords of a call to the
  declared parameters before the body runs and raises TypeError for a keyword that is not
  declared. (The set difference computed first, when \<open>projection_qubits\<close> is given, cannot
  raise and is not used afterwards.) The projection itself and \<open>simultaneous_eigenstates\<close> belong to the external
  projection service and are parameters of the model: \<open>csh\<close> is what the call would return
  (the reduced operator and the free qubits), \<open>poss_eigenstates\<close> the compatible basis
  states. The result is the returned state with the lines printed.
\<close>

definition contextual_subspace_hamiltonian_params :: "string list" where
  "contextual_subspace_hamiltonian_params = [''stabilizer_indices'']"

definition bind_keywords :: "string list \<Rightarrow> string list \<Rightarrow> py_error + unit" where
  "bind_keywords params keywords =
     (if list_all (\<lambda>k. k \<in> set params) keywords then Inr () else Inl TypeError)"

fun select_chars :: "string \<Rightarrow> nat list \<Rightarrow> py_error + string" where
  \<comment> \<open>\<open>''.join([state[i] for i in free_q])\<close>\<close>
  "select_chars state [] = Inr []"
| "select_chars state (i # is) =
     (case list_get state i of Inl e \<Rightarrow> Inl e
      | Inr c \<Rightarrow> (case select_chars state is of Inl e \<Rightarrow> Inl e | Inr cs \<Rightarrow> Inr (c # cs)))"

fun reduce_states :: "string list \<Rightarrow> nat list \<Rightarrow> py_error + string list" where
  "reduce_states [] free_q = Inr []"
| "reduce_states (state # states) free_q =
     (case select_chars state free_q of Inl e \<Rightarrow> Inl e
      | Inr r \<Rightarrow> (case reduce_states states free_q of Inl e \<Rightarrow> Inl e | Inr rs \<Rightarrow> Inr (r # rs)))"

definition noncontextual_ground_state ::
  "(nat list \<Rightarrow> py_error + ('h \<times> nat list)) \<Rightarrow> string list \<Rightarrow> nat list \<Rightarrow> nat list option
     \<Rightarrow> py_error + (string \<times> string list list)" where
  "noncontextual_ground_state csh poss_eigenstates stabilizer_indices projection_qubits =
     (case bind_keywords contextual_subspace_hamiltonian_params
             [''stabilizer_indices'', ''projection_qubits''] of
        Inl e \<Rightarrow> Inl e
      | Inr _ \<Rightarrow>
     (case csh stabilizer_indices of Inl e \<Rightarrow> Inl e
      | Inr (ham_cs, free_q) \<Rightarrow>
     (case reduce_states poss_eigenstates free_q of Inl e \<Rightarrow> Inl e
      | Inr reduced_eigenstates \<Rightarrow>
     (case list_get reduced_eigenstates 0 of Inl e \<Rightarrow> Inl e
      | Inr first_state \<Rightarrow>
          Inr (first_state, if 1 < length reduced_eigenstates then [reduced_eigenstates] else [])))))"

text \<open>
  C9 (the code fails the claim). Whatever the projection would return and however many
  basis states are compatible, the call raises TypeError at the keyword
  \<open>projection_qubits\<close>: nothing is reported and no eigenstate is returned.
\<close>

theorem noncontextual_ground_state_raises:
  "noncontextual_ground_state csh poss_eigenstates stabilizer_indices projection_qubits = Inl TypeError"
  by (simp add: noncontextual_ground_state_def bind_keywords_def contextual_subspace_hamiltonian_params_def)

section \<open>Symmetry generators over GF(2) (tapering, cs_vqe)\<close>

text \<open>
  Modelled from the spec: \<open>gf2_gaus_elim\<close> and \<open>gf2_basis_for_gf2_rref\<close>
  (\<open>utils/symplectic_toolkit\<close>), \<open>QubitOp.swap_XZ_blocks\<close>, \<open>pauli_from_symplectic\<close> and
  \<open>QubitOp.adjacency_matrix\<close> are not among the source files. Following section 4.1 of
  the spec, a matrix over GF(2) is a list of rows of bits; the elimination is the Gauss-Jordan
  reduction to reduced row-echelon form (find the first row at or below \<open>row_i\<close> with a one in
  \<open>col_j\<close>, swap it up, add it to every other row with a one in that column); the kernel basis
  is read off the reduction of the transposed matrix extended by the identity: the rows whose
  left part is zero carry, in their right part, the vectors orthogonal to every row. The number
  of columns is the array's \<open>shape[1]\<close> and is passed explicitly. The methods of the two classes
  (\<open>identify_symmetry_generators\<close>, \<open>independent_generators\<close>) are translated from the source.
\<close>

type_synonym gf2_vec = "bool list"
type_synonym gf2_matrix = "bool list list"

definition vxor :: "gf2_vec \<Rightarrow> gf2_vec \<Rightarrow> gf2_vec" where
  "vxor a b = map2 (\<noteq>) a b"

definition symplectic :: "pauli \<Rightarrow> gf2_vec" where
  \<comment> \<open>Modelled from the spec: the X-support followed by the Z-support.\<close>
  "symplectic P = map xbit P @ map zbit P"

definition swap_XZ_blocks :: "pauli list \<Rightarrow> gf2_matrix" where
  \<comment> \<open>Modelled from the spec: the symplectic matrix with the blocks reordered to (Z, X).\<close>
  "swap_XZ_blocks ps = map (\<lambda>P. map zbit P @ map xbit P) ps"

definition pauli_from_symplectic :: "gf2_vec \<Rightarrow> pauli" where
  \<comment> \<open>Modelled from the spec: decode a vector (X-block, then Z-block) to its label.\<close>
  "pauli_from_symplectic row =
     (let n = length row div 2 in map2 pauli_char (take n row) (drop n row))"

definition find_pivot :: "gf2_matrix \<Rightarrow> nat \<Rightarrow> nat \<Rightarrow> nat option" where
  \<comment> \<open>Modelled from the spec: the first row at or below \<open>row_i\<close> with a one in \<open>col_j\<close>.\<close>
  "find_pivot M row_i col_j = find (\<lambda>k. M ! k ! col_j) [row_i ..< length M]"

definition swap_rows :: "gf2_matrix \<Rightarrow> nat \<Rightarrow> nat \<Rightarrow> gf2_matrix" where
  "swap_rows M k i = M[i := M ! k, k := M ! i]"

definition clear_column :: "gf2_matrix \<Rightarrow> nat \<Rightarrow> nat \<Rightarrow> gf2_matrix" where
  \<comment> \<open>Modelled from the spec: add the pivot row to every other row with a one in \<open>col_j\<close>.\<close>
  "clear_column M row_i col_j =
     (let pivot_row = M ! row_i;
          flip = (\<lambda>r. if r ! col_j then vxor r pivot_row else r)
      in map flip (take row_i M) @ [pivot_row] @ map flip (drop (Suc row_i) M))"

function gf2_elim_loop :: "nat \<Rightarrow> gf2_matrix \<Rightarrow> nat \<Rightarrow> nat \<Rightarrow> gf2_matrix" where
  \<comment> \<open>Modelled from the spec: the \<open>while row_i < m_rows and col_j < n_cols\<close> loop.\<close>
  "gf2_elim_loop n_cols M row_i col_j =
     (if row_i < length M \<and> col_j < n_cols
      then (case find_pivot M row_i col_j of
              None \<Rightarrow> gf2_elim_loop n_cols M row_i (col_j + 1)
            | Some k \<Rightarrow>
                gf2_elim_loop n_cols (clear_column (swap_rows M k row_i) row_i col_j)
                  (row_i + 1) (col_j + 1))
      else M)"
  by pat_completeness auto
termination
  by (relation "measure (\<lambda>(n_cols, M, row_i, col_j). n_cols - col_j)") auto

declare gf2_elim_loop.simps [simp del]

definition gf2_gaus_elim :: "nat \<Rightarrow> gf2_matrix \<Rightarrow> gf2_matrix" where
  \<comment> \<open>Modelled from the spec: Gaussian elimination over GF(2) to reduced row-echelon form.\<close>
  "gf2_gaus_elim n_cols M = gf2_elim_loop n_cols M 0 0"

definition gf2_basis_for_gf2_rref :: "nat \<Rightarrow> gf2_matrix \<Rightarrow> gf2_matrix" where
  \<comment> \<open>Modelled from the spec: a basis of the right null space of \<open>A\<close>.\<close>
  "gf2_basis_for_gf2_rref n_cols A =
     (let m = length A;
          rows_to_columns = map (\<lambda>t. map (\<lambda>r. r ! t) A) [0 ..< n_cols];
          eye = map (\<lambda>t. map (\<lambda>s. s = t) [0 ..< n_cols]) [0 ..< n_cols];
          rrf = gf2_gaus_elim (m + n_cols) (map2 (@) rows_to_columns eye)
      in map (drop m) (filter (\<lambda>r. \<not> list_ex id (take m r)) rrf))"

definition identify_symmetry_generators :: "nat \<Rightarrow> pauli list \<Rightarrow> pauli list" where
  \<comment> \<open>tapering.identify_symmetry_generators, on the labels of the Hamiltonian.\<close>
  "identify_symmetry_generators n ps =
     (let ZX_symp = swap_XZ_blocks ps;
          reduced = gf2_gaus_elim (2 * n) ZX_symp;
          kernel = gf2_basis_for_gf2_rref (2 * n) reduced
      in map pauli_from_symplectic kernel)"

definition adjacency_matrix :: "pauli list \<Rightarrow> bool list list" where
  \<comment> \<open>Modelled from the spec: entry (i, j) tells whether terms i and j commute.\<close>
  "adjacency_matrix ps = map (\<lambda>P. map (\<lambda>Q. commutes P Q) ps) ps"

definition lexsort_rows :: "bool list list \<Rightarrow> nat list" where
  \<comment> \<open>\<open>np.lexsort(M.T)\<close>: a stable sort of the row indices, the last column the primary key.\<close>
  "lexsort_rows M = sort_key (\<lambda>i. rev (M ! i)) [0 ..< length M]"

definition row_mask :: "bool list list \<Rightarrow> bool list" where
  \<comment> \<open>\<open>np.append([True], np.any(np.diff(sorted_comm_mat, axis=0), 1))\<close>\<close>
  "row_mask sorted_rows = True # map2 (\<noteq>) (tl sorted_rows) (butlast sorted_rows)"

definition cs_kernel :: "nat \<Rightarrow> pauli list \<Rightarrow> gf2_matrix \<times> gf2_matrix" where
  \<comment> \<open>cs_vqe.independent_generators, lines 83-86: the reduced matrix without its zero rows,
      and the kernel.\<close>
  "cs_kernel n ps =
     (let ZX_symp = swap_XZ_blocks ps;
          ZX_reduced = filter (list_ex id) (gf2_gaus_elim (2 * n) ZX_symp);
          kernel = gf2_basis_for_gf2_rref (2 * n) ZX_reduced
      in (ZX_reduced, kernel))"

definition anti_kernel_rows :: "nat \<Rightarrow> gf2_matrix \<Rightarrow> gf2_matrix \<Rightarrow> gf2_matrix" where
  \<comment> \<open>Lines 89-98: a row of the reduced matrix is kept when no row of the kernel equals it
      (\<open>diff = kernel - sympauli\<close> has no all-zero row).\<close>
  "anti_kernel_rows n ZX_reduced kernel_rows =
     (let XZ_reduced = map (\<lambda>r. drop n r @ take n r) ZX_reduced
      in filter (\<lambda>sympauli. filter (\<lambda>krow. \<not> list_ex id (vxor krow sympauli)) kernel_rows = []) XZ_reduced)"

definition independent_generators :: "nat \<Rightarrow> pauli list \<Rightarrow> py_error + (pauli list \<times> pauli list)" where
  \<comment> \<open>\<open>np.stack\<close> raises ValueError on an empty list of rows.\<close>
  "independent_generators n ps =
     (let ZX_reduced = fst (cs_kernel n ps);
          kernel = snd (cs_kernel n ps);
          unique_rows = anti_kernel_rows n ZX_reduced kernel in
        (
         if unique_rows = [] then Inl (ValueError ''need at least one array to stack'')
         else
           (let generators = map pauli_from_symplectic kernel;
                cliquereps = map pauli_from_symplectic unique_rows;
                commutation_matrix = adjacency_matrix cliquereps;
                sort_order = lexsort_rows commutation_matrix;
                sorted_comm_mat = map ((!) commutation_matrix) sort_order
            in Inr (generators,
                    map (\<lambda>(i, include). cliquereps ! i)
                      (filter snd (zip sort_order (row_mask sorted_comm_mat)))))))"

subsection \<open>Linear algebra over GF(2)\<close>

text \<open>
  The properties are stated with the usual notions: \<open>dot\<close> is the inner product over GF(2),
  \<open>gf2_comb L cs vs\<close> the sum of the rows of \<open>vs\<close> selected by the coefficient bits \<open>cs\<close>, and a
  list of vectors of length \<open>L\<close> is linearly independent when no selection with a non-zero
  coefficient sums to the zero vector. The elimination is a sequence of row swaps and row
  additions; each step preserves the set of vectors orthogonal to all rows, every property of
  rows that is closed under addition, and linear independence of the rows.
\<close>

fun dot :: "gf2_vec \<Rightarrow> gf2_vec \<Rightarrow> bool" where
  "dot (x # xs) (y # ys) = ((x \<and> y) \<noteq> dot xs ys)"
| "dot _ _ = False"

definition zero_vec :: "nat \<Rightarrow> gf2_vec" where
  "zero_vec L = replicate L False"

fun gf2_comb :: "nat \<Rightarrow> bool list \<Rightarrow> gf2_matrix \<Rightarrow> gf2_vec" where
  "gf2_comb L (c # cs) (v # vs) = (if c then vxor v (gf2_comb L cs vs) else gf2_comb L cs vs)"
| "gf2_comb L _ _ = zero_vec L"

definition gf2_independent :: "nat \<Rightarrow> gf2_matrix \<Rightarrow> bool" where
  "gf2_independent L vs =
     (\<forall>cs. length cs = length vs \<and> gf2_comb L cs vs = zero_vec L \<longrightarrow> True \<notin> set cs)"

definition rows_of_length :: "nat \<Rightarrow> gf2_matrix \<Rightarrow> bool" where
  "rows_of_length L M = (\<forall>r \<in> set M. length r = L)"

lemma length_vxor [simp]: "length (vxor a b) = min (length a) (length b)"
  by (simp add: vxor_def)

lemma nth_vxor: "p < length a \<Longrightarrow> p < length b \<Longrightarrow> vxor a b ! p = (a ! p \<noteq> b ! p)"
  by (simp add: vxor_def)

lemma vxor_commute: "vxor a b = vxor b a"
  by (rule nth_equalityI) (auto simp: nth_vxor)

lemma vxor_assoc: "vxor (vxor a b) c = vxor a (vxor b c)"
  by (rule nth_equalityI) (auto simp: nth_vxor)

lemma vxor_left_commute: "vxor a (vxor b c) = vxor b (vxor a c)"
  by (rule nth_equalityI) (auto simp: nth_vxor)

lemma vxor_self: "vxor a a = zero_vec (length a)"
  by (rule nth_equalityI) (auto simp: nth_vxor zero_vec_def)

lemma vxor_zero_left: "length a = L \<Longrightarrow> vxor (zero_vec L) a = a"
  by (rule nth_equalityI) (auto simp: nth_vxor zero_vec_def)

lemma vxor_zero_right: "length a = L \<Longrightarrow> vxor a (zero_vec L) = a"
  by (simp add: vxor_commute[of a] vxor_zero_left)

lemma vxor_cancel: "length a = L \<Longrightarrow> length b = L \<Longrightarrow> vxor a (vxor a b) = b"
  by (rule nth_equalityI) (auto simp: nth_vxor)

lemma length_zero_vec [simp]: "length (zero_vec L) = L"
  by (simp add: zero_vec_def)

lemma length_gf2_comb: "rows_of_length L M \<Longrightarrow> length (gf2_comb L cs M) = L"
  by (induction L cs M rule: gf2_comb.induct) (auto simp: rows_of_length_def)

lemma dot_vxor_left:
  "length a = length v \<Longrightarrow> length b = length v \<Longrightarrow> dot (vxor a b) v = (dot a v \<noteq> dot b v)"
proof (induction v arbitrary: a b)
  case Nil
  then show ?case by (simp add: vxor_def)
next
  case (Cons y ys)
  then obtain x xs x' xs' where "a = x # xs" "b = x' # xs'"
    by (cases a; cases b) auto
  with Cons show ?case by (auto simp: vxor_def)
qed

lemma dot_vxor_right:
  "length a = length v \<Longrightarrow> length b = length v \<Longrightarrow> dot v (vxor a b) = (dot v a \<noteq> dot v b)"
proof (induction v arbitrary: a b)
  case Nil
  then show ?case by (simp add: vxor_def)
next
  case (Cons y ys)
  then obtain x xs x' xs' where "a = x # xs" "b = x' # xs'"
    by (cases a; cases b) auto
  with Cons show ?case by (auto simp: vxor_def)
qed

lemma dot_zero_left [simp]: "dot (zero_vec L) v = False"
  unfolding zero_vec_def
  by (induction L arbitrary: v) (case_tac v; simp)+

lemma dot_append:
  "length a = length c \<Longrightarrow> dot (a @ b) (c @ d) = (dot a c \<noteq> dot b d)"
  by (induction a c rule: list_induct2) auto

definition orth :: "gf2_vec \<Rightarrow> gf2_matrix \<Rightarrow> bool" where
  "orth v M = (\<forall>r \<in> set M. \<not> dot r v)"

lemma find_pivot_Some:
  "find_pivot M i j = Some k \<Longrightarrow> i \<le> k \<and> k < length M \<and> M ! k ! j"
  by (auto simp: find_pivot_def find_Some_iff)

lemma set_swap_rows: "i < length M \<Longrightarrow> k < length M \<Longrightarrow> set (swap_rows M k i) = set M"
  by (simp add: swap_rows_def set_swap)

lemma length_swap_rows [simp]: "length (swap_rows M k i) = length M"
  by (simp add: swap_rows_def)

lemma length_clear_column: "i < length M \<Longrightarrow> length (clear_column M i j) = length M"
  by (simp add: clear_column_def Let_def)

lemma set_clear_column:
  assumes "i < length M"
  shows "set (clear_column M i j) =
           insert (M ! i) ((\<lambda>r. if r ! j then vxor r (M ! i) else r) ` (set (take i M) \<union> set (drop (Suc i) M)))"
  by (auto simp: clear_column_def Let_def)

lemma set_take_drop:
  assumes "i < length M"
  shows "set M = insert (M ! i) (set (take i M) \<union> set (drop (Suc i) M))"
proof -
  have "M = take i M @ M ! i # drop (Suc i) M"
    using assms by (rule id_take_nth_drop)
  then have "set M = set (take i M @ M ! i # drop (Suc i) M)"
    by simp
  then show ?thesis by simp
qed

lemma clear_column_pred:
  assumes "\<forall>r \<in> set M. Q r" and "\<And>a b. Q a \<Longrightarrow> Q b \<Longrightarrow> Q (vxor a b)" and "i < length M"
  shows "\<forall>r \<in> set (clear_column M i j). Q r"
proof -
  have piv: "Q (M ! i)" using assms(1,3) by simp
  have "Q r" if "r \<in> set (take i M) \<union> set (drop (Suc i) M)" for r
    using that assms(1) set_take_drop[OF assms(3)] by auto
  then show ?thesis
    using piv assms(2) by (auto simp: set_clear_column[OF assms(3)])
qed

lemma clear_column_orth:
  assumes "rows_of_length L M" and "length v = L" and "i < length M"
  shows "orth v (clear_column M i j) = orth v M"
proof -
  let ?piv = "M ! i"
  let ?rest = "set (take i M) \<union> set (drop (Suc i) M)"
  have len: "length r = L" if "r \<in> insert ?piv ?rest" for r
    using that assms(1) set_take_drop[OF assms(3)] by (auto simp: rows_of_length_def)
  have flip: "dot (if r ! j then vxor r ?piv else r) v = (if r ! j then dot r v \<noteq> dot ?piv v else dot r v)"
    if "r \<in> ?rest" for r
    using that len assms(2) by (simp add: dot_vxor_left)
  have "orth v (clear_column M i j) =
          (\<not> dot ?piv v \<and> (\<forall>r \<in> ?rest. \<not> dot (if r ! j then vxor r ?piv else r) v))"
    unfolding orth_def set_clear_column[OF assms(3)] by blast
  also have "\<dots> = (\<not> dot ?piv v \<and> (\<forall>r \<in> ?rest. \<not> dot r v))"
    using flip by auto
  also have "\<dots> = orth v M"
    unfolding orth_def by (subst set_take_drop[OF assms(3)]) blast
  finally show ?thesis .
qed

lemma vxor_rows_of_length:
  "length a = L \<Longrightarrow> length b = L \<Longrightarrow> length (vxor a b) = L"
  by simp

lemma gf2_elim_loop_pred:
  assumes "\<And>a b. Q a \<Longrightarrow> Q b \<Longrightarrow> Q (vxor a b)"
  shows "\<forall>r \<in> set M. Q r \<Longrightarrow> \<forall>r \<in> set (gf2_elim_loop n M i j). Q r"
proof (induction n M i j rule: gf2_elim_loop.induct)
  case (1 n M i j)
  show ?case
  proof (cases "i < length M \<and> j < n")
    case False
    then show ?thesis using "1.prems" by (subst gf2_elim_loop.simps) auto
  next
    case True
    show ?thesis
    proof (cases "find_pivot M i j")
      case None
      then show ?thesis
        using True "1.IH"(1)[OF True None "1.prems"] by (subst gf2_elim_loop.simps) simp
    next
      case (Some k)
      from find_pivot_Some[OF Some] True have "\<forall>r \<in> set (swap_rows M k i). Q r"
        using "1.prems" by (simp add: set_swap_rows)
      then have "\<forall>r \<in> set (clear_column (swap_rows M k i) i j). Q r"
        using assms True by (intro clear_column_pred) auto
      from "1.IH"(2)[OF True Some this] show ?thesis
        using True Some by (subst gf2_elim_loop.simps) simp
    qed
  qed
qed

lemma gf2_elim_loop_length: "length (gf2_elim_loop n M i j) = length M"
proof (induction n M i j rule: gf2_elim_loop.induct)
  case (1 n M i j)
  show ?case
  proof (cases "i < length M \<and> j < n")
    case False
    then show ?thesis by (subst gf2_elim_loop.simps) auto
  next
    case True
    show ?thesis
    proof (cases "find_pivot M i j")
      case None
      then show ?thesis
        using True "1.IH"(1)[OF True None] by (subst gf2_elim_loop.simps) simp
    next
      case (Some k)
      from "1.IH"(2)[OF True Some] show ?thesis
        using True Some by (subst gf2_elim_loop.simps) (simp add: length_clear_column)
    qed
  qed
qed

lemma gf2_elim_loop_rows_of_length:
  "rows_of_length L M \<Longrightarrow> rows_of_length L (gf2_elim_loop n M i j)"
  unfolding rows_of_length_def by (rule gf2_elim_loop_pred) auto

lemma gf2_elim_loop_orth:
  assumes "length v = L"
  shows "rows_of_length L M \<Longrightarrow> orth v (gf2_elim_loop n M i j) = orth v M"
proof (induction n M i j rule: gf2_elim_loop.induct)
  case (1 n M i j)
  show ?case
  proof (cases "i < length M \<and> j < n")
    case False
    then show ?thesis by (subst gf2_elim_loop.simps) auto
  next
    case True
    show ?thesis
    proof (cases "find_pivot M i j")
      case None
      then show ?thesis
        using True "1.IH"(1)[OF True None "1.prems"] by (subst gf2_elim_loop.simps) simp
    next
      case (Some k)
      from find_pivot_Some[OF Some] True have k: "k < length M" and i: "i < length M" by auto
      have sw: "set (swap_rows M k i) = set M"
        using i k by (rule set_swap_rows)
      then have rl: "rows_of_length L (swap_rows M k i)"
        using "1.prems" by (simp add: rows_of_length_def)
      have rl2: "rows_of_length L (clear_column (swap_rows M k i) i j)"
        unfolding rows_of_length_def
        using rl i by (intro clear_column_pred) (auto simp: rows_of_length_def)
      have "orth v (clear_column (swap_rows M k i) i j) = orth v (swap_rows M k i)"
        using rl assms i by (intro clear_column_orth) auto
      also have "\<dots> = orth v M"
        by (simp add: orth_def sw)
      finally show ?thesis
        using True Some "1.IH"(2)[OF True Some rl2] by (subst gf2_elim_loop.simps) simp
    qed
  qed
qed

fun par :: "nat \<Rightarrow> bool list \<Rightarrow> gf2_matrix \<Rightarrow> bool" where
  "par j (c # cs) (r # rs) = ((c \<and> r ! j) \<noteq> par j cs rs)"
| "par j _ _ = False"

lemma gf2_comb_append:
  assumes "length cs1 = length M1" and "rows_of_length L M1" and "rows_of_length L M2"
  shows "gf2_comb L (cs1 @ cs2) (M1 @ M2) = vxor (gf2_comb L cs1 M1) (gf2_comb L cs2 M2)"
  using assms
proof (induction cs1 M1 rule: list_induct2)
  case Nil
  then show ?case by (simp add: vxor_zero_left length_gf2_comb)
next
  case (Cons c cs1 r M1)
  then have "rows_of_length L M1" by (simp add: rows_of_length_def)
  with Cons show ?case by (simp add: vxor_assoc)
qed

lemma gf2_comb_flip:
  assumes "rows_of_length L N" and "length piv = L"
  shows "gf2_comb L cs (map (\<lambda>r. if r ! j then vxor r piv else r) N) =
           (if par j cs N then vxor piv (gf2_comb L cs N) else gf2_comb L cs N)"
  using assms(1)
proof (induction N arbitrary: cs)
  case Nil
  then show ?case by (cases cs) simp_all
next
  case (Cons r N)
  then have rl: "rows_of_length L N" and lr: "length r = L"
    by (simp_all add: rows_of_length_def)
  note IH = Cons.IH[OF rl]
  have lc: "length (gf2_comb L cs' N) = L" for cs'
    using rl by (rule length_gf2_comb)
  show ?case
  proof (cases cs)
    case Nil
    then show ?thesis by simp
  next
    case (Cons c cs')
    have c1: "vxor (vxor r piv) (vxor piv A) = vxor r A" if "length A = L" for A
    proof -
      have "vxor (vxor r piv) (vxor piv A) = vxor r (vxor piv (vxor piv A))"
        by (simp add: vxor_assoc)
      also have "\<dots> = vxor r A"
        using that assms(2) by (simp add: vxor_cancel)
      finally show ?thesis .
    qed
    have c2: "vxor (vxor r piv) A = vxor piv (vxor r A)" for A
      by (simp add: vxor_commute[of r piv] vxor_assoc)
    have c3: "vxor r (vxor piv A) = vxor piv (vxor r A)" for A
      by (rule vxor_left_commute)
    have c4: "vxor piv (vxor piv B) = B" if "length B = L" for B
      using that assms(2) by (simp add: vxor_cancel)
    have lrc: "length (vxor r (gf2_comb L cs' N)) = L"
      using lr lc by simp
    show ?thesis
      by (simp add: Cons IH c1 c2 c3 c4 lc lr)
  qed
qed

lemma par_no_coeff: "True \<notin> set cs \<Longrightarrow> par j cs N = False"
  by (induction j cs N rule: par.induct) auto

lemma gf2_independent_clear_column:
  assumes ind: "gf2_independent L M" and rl: "rows_of_length L M" and i: "i < length M"
  shows "gf2_independent L (clear_column M i j)"
  unfolding gf2_independent_def
proof (intro allI impI, elim conjE)
  fix cs
  assume len: "length cs = length (clear_column M i j)"
    and zero: "gf2_comb L cs (clear_column M i j) = zero_vec L"
  define piv where "piv = M ! i"
  define flip where "flip = (\<lambda>r. if r ! j then vxor r piv else r)"
  define M1 where "M1 = take i M"
  define M2 where "M2 = drop (Suc i) M"
  define cs1 where "cs1 = take i cs"
  define cs2 where "cs2 = drop (Suc i) cs"
  define c where "c = cs ! i"
  define p1 where "p1 = par j cs1 M1"
  define p2 where "p2 = par j cs2 M2"
  define A1 where "A1 = gf2_comb L cs1 M1"
  define A2 where "A2 = gf2_comb L cs2 M2"
  have lcs: "length cs = length M"
    using len i by (simp add: length_clear_column)
  have M: "M = M1 @ piv # M2"
    unfolding M1_def M2_def piv_def using i by (rule id_take_nth_drop)
  have cs: "cs = cs1 @ c # cs2"
    unfolding cs1_def cs2_def c_def using i lcs by (intro id_take_nth_drop) simp
  have l1: "length cs1 = length M1"
    using i lcs by (simp add: cs1_def M1_def)
  have rl1: "rows_of_length L M1" and rl2: "rows_of_length L M2" and lp: "length piv = L"
    using rl M by (auto simp: rows_of_length_def)
  have lA1: "length A1 = L" and lA2: "length A2 = L"
    unfolding A1_def A2_def using rl1 rl2 by (simp_all add: length_gf2_comb)
  have CC: "clear_column M i j = map flip M1 @ piv # map flip M2"
    by (simp add: clear_column_def Let_def flip_def piv_def M1_def M2_def)
  have rlf1: "rows_of_length L (map flip M1)" and rlf2: "rows_of_length L (piv # map flip M2)"
    using rl1 rl2 lp by (auto simp: rows_of_length_def flip_def)
  have f1: "gf2_comb L cs1 (map flip M1) = (if p1 then vxor piv A1 else A1)"
    unfolding flip_def p1_def A1_def by (rule gf2_comb_flip[OF rl1 lp])
  have f2: "gf2_comb L cs2 (map flip M2) = (if p2 then vxor piv A2 else A2)"
    unfolding flip_def p2_def A2_def by (rule gf2_comb_flip[OF rl2 lp])
  have lhs: "gf2_comb L cs (clear_column M i j) =
          vxor (if p1 then vxor piv A1 else A1)
               (if c then vxor piv (if p2 then vxor piv A2 else A2) else (if p2 then vxor piv A2 else A2))"
    by (subst cs, subst CC, subst gf2_comb_append[OF _ rlf1 rlf2]) (simp_all add: l1 f1 f2)
  define c' where "c' = ((p1 \<noteq> c) \<noteq> p2)"
  have rlM2: "rows_of_length L (piv # M2)"
    using rl2 lp by (simp add: rows_of_length_def)
  have rhs: "gf2_comb L (cs1 @ c' # cs2) M = vxor A1 (if c' then vxor piv A2 else A2)"
    by (subst M, subst gf2_comb_append[OF l1 rl1 rlM2]) (simp add: A1_def A2_def)
  have k1: "vxor piv (vxor piv B) = B" if "length B = L" for B
    using that lp by (simp add: vxor_cancel)
  have k2: "vxor (vxor piv A1) B = vxor piv (vxor A1 B)" for B
    by (rule vxor_assoc)
  have k3: "vxor A1 (vxor piv B) = vxor piv (vxor A1 B)" for B
    by (rule vxor_left_commute)
  have lAB: "length (vxor A1 A2) = L"
    using lA1 lA2 by simp
  have "vxor (if p1 then vxor piv A1 else A1)
               (if c then vxor piv (if p2 then vxor piv A2 else A2) else (if p2 then vxor piv A2 else A2))
        = vxor A1 (if c' then vxor piv A2 else A2)"
    unfolding c'_def
    by (cases p1; cases p2; cases c) (simp_all add: k1 k2 k3 lA1 lA2)
  then have "gf2_comb L cs (clear_column M i j) = gf2_comb L (cs1 @ c' # cs2) M"
    using lhs rhs by simp
  with zero have "gf2_comb L (cs1 @ c' # cs2) M = zero_vec L"
    by simp
  moreover have "length (cs1 @ c' # cs2) = length M"
    using cs lcs by (metis length_append length_Cons)
  ultimately have none: "True \<notin> set (cs1 @ c' # cs2)"
    using ind unfolding gf2_independent_def by blast
  then have n1: "True \<notin> set cs1" and n2: "True \<notin> set cs2" and nc: "\<not> c'"
    by auto
  from n1 n2 have "p1 = False" "p2 = False"
    unfolding p1_def p2_def by (simp_all add: par_no_coeff)
  with nc have "\<not> c" by (simp add: c'_def)
  with n1 n2 show "True \<notin> set cs"
    by (subst cs) simp
qed

lemma gf2_comb_foldr:
  "gf2_comb L cs M = foldr (\<lambda>(c, r) acc. if c then vxor r acc else acc) (zip cs M) (zero_vec L)"
  by (induction L cs M rule: gf2_comb.induct) auto

lemma gf2_comb_mset:
  assumes "mset (zip cs M) = mset (zip cs' M')"
  shows "gf2_comb L cs M = gf2_comb L cs' M'"
proof -
  let ?f = "\<lambda>(c, r) acc. if c then vxor r acc else acc"
  have comm: "?f x \<circ> ?f y = ?f y \<circ> ?f x" for x y :: "bool \<times> gf2_vec"
    by (cases x; cases y) (auto simp: fun_eq_iff vxor_left_commute)
  have "foldr ?f (zip cs M) = fold ?f (zip cs M)"
    by (rule foldr_fold) (rule comm)
  also have "\<dots> = fold ?f (zip cs' M')"
    by (rule fold_multiset_equiv[OF comm assms])
  also have "\<dots> = foldr ?f (zip cs' M')"
    by (rule foldr_fold[symmetric]) (rule comm)
  finally show ?thesis
    by (simp add: gf2_comb_foldr)
qed

lemma gf2_comb_swap_rows:
  assumes "i < length M" and "k < length M" and "length cs = length M"
  shows "gf2_comb L cs (swap_rows M k i) = gf2_comb L (cs[i := cs ! k, k := cs ! i]) M"
proof (rule gf2_comb_mset)
  let ?cs = "cs[i := cs ! k, k := cs ! i]"
  let ?Z = "zip ?cs M"
  have "zip cs (swap_rows M k i) = ?Z[i := ?Z ! k, k := ?Z ! i]"
    using assms by (intro nth_equalityI) (auto simp: swap_rows_def nth_list_update)
  moreover have "mset (?Z[i := ?Z ! k, k := ?Z ! i]) = mset ?Z"
    using assms by (intro mset_swap) auto
  ultimately show "mset (zip cs (swap_rows M k i)) = mset ?Z"
    by simp
qed

lemma gf2_independent_swap_rows:
  assumes "gf2_independent L M" and "i < length M" and "k < length M"
  shows "gf2_independent L (swap_rows M k i)"
  unfolding gf2_independent_def
proof (intro allI impI, elim conjE)
  fix cs
  assume len: "length cs = length (swap_rows M k i)"
    and zero: "gf2_comb L cs (swap_rows M k i) = zero_vec L"
  let ?cs = "cs[i := cs ! k, k := cs ! i]"
  from len have lcs: "length cs = length M" by simp
  have "gf2_comb L ?cs M = zero_vec L"
    using gf2_comb_swap_rows[OF assms(2,3) lcs] zero by simp
  moreover have "length ?cs = length M" using lcs by simp
  ultimately have "True \<notin> set ?cs"
    using assms(1) unfolding gf2_independent_def by blast
  moreover have "set ?cs = set cs"
    using assms(2,3) lcs by (intro set_swap) auto
  ultimately show "True \<notin> set cs"
    by simp
qed

lemma gf2_elim_loop_independent:
  "gf2_independent L M \<Longrightarrow> rows_of_length L M \<Longrightarrow> gf2_independent L (gf2_elim_loop n M i j)"
proof (induction n M i j rule: gf2_elim_loop.induct)
  case (1 n M i j)
  show ?case
  proof (cases "i < length M \<and> j < n")
    case False
    then show ?thesis using "1.prems" by (subst gf2_elim_loop.simps) auto
  next
    case True
    show ?thesis
    proof (cases "find_pivot M i j")
      case None
      then show ?thesis
        using True "1.IH"(1)[OF True None "1.prems"] by (subst gf2_elim_loop.simps) simp
    next
      case (Some k)
      from find_pivot_Some[OF Some] True have k: "k < length M" and i: "i < length M" by auto
      have rl: "rows_of_length L (swap_rows M k i)"
        using "1.prems"(2) by (simp add: rows_of_length_def set_swap_rows[OF i k])
      have rl2: "rows_of_length L (clear_column (swap_rows M k i) i j)"
        unfolding rows_of_length_def
        using rl i by (intro clear_column_pred) (auto simp: rows_of_length_def)
      have "gf2_independent L (swap_rows M k i)"
        using "1.prems"(1) i k by (rule gf2_independent_swap_rows)
      then have "gf2_independent L (clear_column (swap_rows M k i) i j)"
        using rl i by (intro gf2_independent_clear_column) auto
      from "1.IH"(2)[OF True Some this rl2] show ?thesis
        using True Some by (subst gf2_elim_loop.simps) simp
    qed
  qed
qed

lemma gf2_comb_filter:
  "length cs = length (filter P M) \<Longrightarrow>
   \<exists>cs'. length cs' = length M \<and> gf2_comb L cs' M = gf2_comb L cs (filter P M)
         \<and> (True \<in> set cs \<longrightarrow> True \<in> set cs')"
proof (induction M arbitrary: cs)
  case Nil
  then show ?case by simp
next
  case (Cons r M)
  show ?case
  proof (cases "P r")
    case True
    with Cons.prems obtain c cs0 where cs: "cs = c # cs0" and l0: "length cs0 = length (filter P M)"
      by (cases cs) auto
    from Cons.IH[OF l0] obtain cs' where "length cs' = length M"
      "gf2_comb L cs' M = gf2_comb L cs0 (filter P M)" "True \<in> set cs0 \<longrightarrow> True \<in> set cs'"
      by blast
    then show ?thesis
      using True cs by (intro exI[of _ "c # cs'"]) auto
  next
    case False
    with Cons.prems have "length cs = length (filter P M)" by simp
    from Cons.IH[OF this] obtain cs' where "length cs' = length M"
      "gf2_comb L cs' M = gf2_comb L cs (filter P M)" "True \<in> set cs \<longrightarrow> True \<in> set cs'"
      by blast
    then show ?thesis
      using False by (intro exI[of _ "False # cs'"]) auto
  qed
qed

lemma gf2_independent_filter:
  assumes "gf2_independent L M"
  shows "gf2_independent L (filter P M)"
  unfolding gf2_independent_def
proof (intro allI impI, elim conjE)
  fix cs
  assume "length cs = length (filter P M)" and zero: "gf2_comb L cs (filter P M) = zero_vec L"
  from gf2_comb_filter[OF this(1), of L] obtain cs' where
    "length cs' = length M" "gf2_comb L cs' M = gf2_comb L cs (filter P M)"
    "True \<in> set cs \<longrightarrow> True \<in> set cs'"
    by blast
  with zero assms show "True \<notin> set cs"
    unfolding gf2_independent_def by metis
qed

lemma drop_vxor: "drop m (vxor a b) = vxor (drop m a) (drop m b)"
  by (simp add: vxor_def drop_map drop_zip)

lemma take_vxor: "take m (vxor a b) = vxor (take m a) (take m b)"
  by (simp add: vxor_def take_map take_zip)

lemma drop_gf2_comb: "drop m (gf2_comb L cs M) = gf2_comb (L - m) cs (map (drop m) M)"
  by (induction L cs M rule: gf2_comb.induct) (auto simp: drop_vxor zero_vec_def)

lemma take_gf2_comb_zero:
  assumes "m \<le> L" and "\<forall>r \<in> set M. take m r = zero_vec m"
  shows "take m (gf2_comb L cs M) = zero_vec m"
  using assms(2)
proof (induction M arbitrary: cs)
  case Nil
  then show ?case
    using assms(1) by (cases cs) (simp_all add: zero_vec_def min_def)
next
  case (Cons r M)
  show ?case
  proof (cases cs)
    case Nil
    then show ?thesis
      using assms(1) by (simp add: zero_vec_def min_def)
  next
    case (Cons c cs0)
    then show ?thesis
      using Cons.prems Cons.IH[of cs0] vxor_self[of "zero_vec m"] by (simp add: take_vxor)
  qed
qed

lemma no_coeff_zero_vec: "\<not> list_ex id xs \<Longrightarrow> xs = zero_vec (length xs)"
  unfolding zero_vec_def by (induction xs) auto

lemma gf2_independent_drop:
  assumes ind: "gf2_independent L M" and "m \<le> L"
    and zero_left: "\<forall>r \<in> set M. take m r = zero_vec m"
  shows "gf2_independent (L - m) (map (drop m) M)"
  unfolding gf2_independent_def
proof (intro allI impI, elim conjE)
  fix cs
  assume len: "length cs = length (map (drop m) M)"
    and zero: "gf2_comb (L - m) cs (map (drop m) M) = zero_vec (L - m)"
  have "gf2_comb L cs M = take m (gf2_comb L cs M) @ drop m (gf2_comb L cs M)"
    by simp
  also have "\<dots> = zero_vec m @ zero_vec (L - m)"
    using take_gf2_comb_zero[OF assms(2) zero_left] zero by (simp add: drop_gf2_comb)
  also have "\<dots> = zero_vec L"
    using assms(2) by (simp add: zero_vec_def flip: replicate_add)
  finally have "gf2_comb L cs M = zero_vec L" .
  with ind len show "True \<notin> set cs"
    unfolding gf2_independent_def by simp
qed

lemma nth_gf2_comb:
  "rows_of_length L M \<Longrightarrow> p < L \<Longrightarrow> gf2_comb L cs M ! p = par p cs M"
proof (induction L cs M rule: gf2_comb.induct)
  case (1 L c cs v vs)
  then have "rows_of_length L vs" "length v = L"
    by (simp_all add: rows_of_length_def)
  with 1 show ?case
    by (simp add: nth_vxor length_gf2_comb)
qed (simp_all add: zero_vec_def)

definition unit_row :: "nat \<Rightarrow> nat \<Rightarrow> gf2_vec" where
  "unit_row n t = map (\<lambda>s. s = t) [0 ..< n]"

lemma par_unit_rows:
  "k + length cs \<le> n \<Longrightarrow> p < n \<Longrightarrow>
   par p cs (map (unit_row n) [k ..< k + length cs]) =
     (if k \<le> p \<and> p < k + length cs then cs ! (p - k) else False)"
proof (induction cs arbitrary: k)
  case Nil
  then show ?case by auto
next
  case (Cons c cs)
  have upt: "[k ..< k + length (c # cs)] = k # [Suc k ..< Suc k + length cs]"
    using upt_conv_Cons[of k "k + length (c # cs)"] by simp
  have IH: "par p cs (map (unit_row n) [Suc k ..< Suc k + length cs]) =
          (if Suc k \<le> p \<and> p < Suc k + length cs then cs ! (p - Suc k) else False)"
    using Cons.prems by (intro Cons.IH) auto
  have row: "unit_row n k ! p = (p = k)"
    using Cons.prems by (simp add: unit_row_def)
  have step: "par p (c # cs) (map (unit_row n) (k # [Suc k ..< Suc k + length cs])) =
          ((c \<and> p = k) \<noteq> par p cs (map (unit_row n) [Suc k ..< Suc k + length cs]))"
    by (simp only: list.map par.simps row)
  have "((c \<and> p = k) \<noteq> (if Suc k \<le> p \<and> p < Suc k + length cs then cs ! (p - Suc k) else False)) =
        (if k \<le> p \<and> p < k + length (c # cs) then (c # cs) ! (p - k) else False)"
    by (cases "p = k") (auto simp: nth_Cons' Suc_diff_Suc)
  then show ?case
    unfolding upt step IH .
qed

lemma gf2_comb_unit_rows:
  assumes "length cs = n"
  shows "gf2_comb n cs (map (unit_row n) [0 ..< n]) = cs"
proof (rule nth_equalityI)
  have rl: "rows_of_length n (map (unit_row n) [0 ..< n])"
    by (auto simp: rows_of_length_def unit_row_def)
  then show "length (gf2_comb n cs (map (unit_row n) [0 ..< n])) = length cs"
    using assms by (simp add: length_gf2_comb)
  fix p assume "p < length (gf2_comb n cs (map (unit_row n) [0 ..< n]))"
  then have p: "p < n" using rl by (simp add: length_gf2_comb)
  have "par p cs (map (unit_row n) [0 ..< 0 + length cs]) = cs ! p"
    using p assms by (subst par_unit_rows) auto
  then show "gf2_comb n cs (map (unit_row n) [0 ..< n]) ! p = cs ! p"
    using assms p rl by (simp add: nth_gf2_comb)
qed

lemma dot_unit_row_offset:
  "dot a (map (\<lambda>s. s = t) [k ..< k + length a]) =
     (if k \<le> t \<and> t < k + length a then a ! (t - k) else False)"
proof (induction a arbitrary: k)
  case Nil
  then show ?case by auto
next
  case (Cons x a)
  have upt: "[k ..< k + length (x # a)] = k # [Suc k ..< Suc k + length a]"
    using upt_conv_Cons[of k "k + length (x # a)"] by simp
  have step: "dot (x # a) (map (\<lambda>s. s = t) (k # [Suc k ..< Suc k + length a])) =
          ((x \<and> k = t) \<noteq> dot a (map (\<lambda>s. s = t) [Suc k ..< Suc k + length a]))"
    by (simp only: list.map dot.simps)
  have "((x \<and> k = t) \<noteq> (if Suc k \<le> t \<and> t < Suc k + length a then a ! (t - Suc k) else False)) =
        (if k \<le> t \<and> t < k + length (x # a) then (x # a) ! (t - k) else False)"
    by (cases "t = k") (auto simp: nth_Cons' Suc_diff_Suc)
  then show ?case
    unfolding upt step Cons.IH[of "Suc k"] .
qed

lemma dot_unit_row: "length a = n \<Longrightarrow> t < n \<Longrightarrow> dot a (unit_row n t) = a ! t"
  using dot_unit_row_offset[of a t 0] by (simp add: unit_row_def)

definition stacked :: "nat \<Rightarrow> gf2_matrix \<Rightarrow> gf2_matrix" where
  "stacked n A = map (\<lambda>t. map (\<lambda>r. r ! t) A @ unit_row n t) [0 ..< n]"

lemma map2_same: "map2 f (map g xs) (map h xs) = map (\<lambda>x. f (g x) (h x)) xs"
  by (induction xs) auto

lemma gf2_basis_for_gf2_rref_stacked:
  "gf2_basis_for_gf2_rref n A =
     map (drop (length A))
       (filter (\<lambda>r. \<not> list_ex id (take (length A) r)) (gf2_gaus_elim (length A + n) (stacked n A)))"
  by (simp add: gf2_basis_for_gf2_rref_def Let_def stacked_def unit_row_def map2_same)

lemma rows_of_length_stacked: "rows_of_length (length A + n) (stacked n A)"
  by (auto simp: rows_of_length_def stacked_def unit_row_def)

lemma drop_stacked: "map (drop (length A)) (stacked n A) = map (unit_row n) [0 ..< n]"
  by (simp add: stacked_def)

lemma gf2_independent_stacked: "gf2_independent (length A + n) (stacked n A)"
  unfolding gf2_independent_def
proof (intro allI impI, elim conjE)
  fix cs
  assume len: "length cs = length (stacked n A)"
    and zero: "gf2_comb (length A + n) cs (stacked n A) = zero_vec (length A + n)"
  from len have lcs: "length cs = n" by (simp add: stacked_def)
  have "gf2_comb n cs (map (unit_row n) [0 ..< n]) = drop (length A) (gf2_comb (length A + n) cs (stacked n A))"
    by (simp add: drop_gf2_comb drop_stacked)
  also have "\<dots> = zero_vec n"
    by (simp add: zero zero_vec_def)
  finally have "cs = zero_vec n"
    using gf2_comb_unit_rows[OF lcs] by simp
  then show "True \<notin> set cs"
    by (simp add: zero_vec_def)
qed

definition kernel_row_inv :: "gf2_matrix \<Rightarrow> nat \<Rightarrow> gf2_vec \<Rightarrow> bool" where
  "kernel_row_inv A n r =
     (length r = length A + n \<and> (\<forall>j < length A. r ! j = dot (A ! j) (drop (length A) r)))"

lemma kernel_row_inv_stacked:
  assumes "rows_of_length n A" and "r \<in> set (stacked n A)"
  shows "kernel_row_inv A n r"
proof -
  from assms(2) obtain t where t: "t < n" and r: "r = map (\<lambda>r. r ! t) A @ unit_row n t"
    by (auto simp: stacked_def)
  have "dot (A ! j) (unit_row n t) = A ! j ! t" if "j < length A" for j
    using that assms(1) t by (intro dot_unit_row) (auto simp: rows_of_length_def)
  then show ?thesis
    by (auto simp: kernel_row_inv_def r unit_row_def nth_append)
qed

lemma kernel_row_inv_vxor:
  assumes "rows_of_length n A" and "kernel_row_inv A n a" and "kernel_row_inv A n b"
  shows "kernel_row_inv A n (vxor a b)"
proof -
  from assms(2,3) have la: "length a = length A + n" and lb: "length b = length A + n"
    by (simp_all add: kernel_row_inv_def)
  have "vxor a b ! j = dot (A ! j) (drop (length A) (vxor a b))" if j: "j < length A" for j
  proof -
    have lj: "length (A ! j) = n"
      using assms(1) j by (simp add: rows_of_length_def)
    have "dot (A ! j) (drop (length A) (vxor a b)) =
            (dot (A ! j) (drop (length A) a) \<noteq> dot (A ! j) (drop (length A) b))"
      unfolding drop_vxor using la lb lj by (intro dot_vxor_right) auto
    also have "\<dots> = (a ! j \<noteq> b ! j)"
      using assms(2,3) j by (simp add: kernel_row_inv_def)
    also have "\<dots> = vxor a b ! j"
      using la lb j by (simp add: nth_vxor)
    finally show ?thesis by simp
  qed
  then show ?thesis
    using la lb by (simp add: kernel_row_inv_def)
qed

lemma gf2_basis_rows:
  assumes rl: "rows_of_length n A" and v: "v \<in> set (gf2_basis_for_gf2_rref n A)"
  shows "length v = n \<and> orth v A"
proof -
  let ?m = "length A"
  from v obtain r where r: "r \<in> set (gf2_gaus_elim (?m + n) (stacked n A))"
    and nz: "\<not> list_ex id (take ?m r)" and vr: "v = drop ?m r"
    by (auto simp: gf2_basis_for_gf2_rref_stacked)
  have "\<forall>r \<in> set (gf2_elim_loop (?m + n) (stacked n A) 0 0). kernel_row_inv A n r"
    using kernel_row_inv_vxor[OF rl] kernel_row_inv_stacked[OF rl]
    by (intro gf2_elim_loop_pred) auto
  with r have inv: "kernel_row_inv A n r"
    by (simp add: gf2_gaus_elim_def)
  then have lv: "length v = n"
    by (simp add: kernel_row_inv_def vr)
  have "\<not> dot (A ! j) v" if "j < ?m" for j
  proof -
    have "take ?m r ! j = r ! j" using that by simp
    moreover have "\<not> take ?m r ! j"
      using nz that inv by (auto simp: list_ex_iff kernel_row_inv_def in_set_conv_nth)
    ultimately show ?thesis
      using inv that by (simp add: kernel_row_inv_def vr)
  qed
  then have "orth v A"
    by (auto simp: orth_def in_set_conv_nth)
  with lv show ?thesis by simp
qed

lemma gf2_basis_independent:
  "gf2_independent n (gf2_basis_for_gf2_rref n A)"
proof -
  let ?m = "length A"
  let ?rrf = "gf2_gaus_elim (?m + n) (stacked n A)"
  let ?sel = "filter (\<lambda>r. \<not> list_ex id (take ?m r)) ?rrf"
  have ind: "gf2_independent (?m + n) ?rrf"
    unfolding gf2_gaus_elim_def
    by (intro gf2_elim_loop_independent gf2_independent_stacked rows_of_length_stacked)
  have rl: "rows_of_length (?m + n) ?rrf"
    unfolding gf2_gaus_elim_def
    by (intro gf2_elim_loop_rows_of_length rows_of_length_stacked)
  have "take ?m r = zero_vec ?m" if "r \<in> set ?sel" for r
  proof -
    from that rl have "length (take ?m r) = ?m"
      by (auto simp: rows_of_length_def)
    moreover from that have "\<not> list_ex id (take ?m r)" by simp
    ultimately show ?thesis
      using no_coeff_zero_vec[of "take ?m r"] by simp
  qed
  then have "gf2_independent (?m + n - ?m) (map (drop ?m) ?sel)"
    by (intro gf2_independent_drop gf2_independent_filter ind) auto
  then show ?thesis
    by (simp add: gf2_basis_for_gf2_rref_stacked)
qed

definition generator_set_ok :: "nat \<Rightarrow> pauli list \<Rightarrow> pauli list \<Rightarrow> bool" where
  "generator_set_ok n ps gens =
     (gf2_independent (2 * n) (map symplectic gens)
      \<and> (\<forall>g \<in> set gens. \<forall>P \<in> set ps. commutes g P)
      \<and> replicate n (CHR ''I'') \<notin> set gens)"

lemma xbit_pauli_char [simp]: "xbit (pauli_char x z) = x"
  by (simp add: xbit_def pauli_char_def)

lemma zbit_pauli_char [simp]: "zbit (pauli_char x z) = z"
  by (simp add: zbit_def pauli_char_def)

lemma map_xbit_map2: "length a = length b \<Longrightarrow> map xbit (map2 pauli_char a b) = a"
  by (induction a b rule: list_induct2) auto

lemma map_zbit_map2: "length a = length b \<Longrightarrow> map zbit (map2 pauli_char a b) = b"
  by (induction a b rule: list_induct2) auto

lemma symplectic_pauli_from_symplectic:
  assumes "length v = 2 * n"
  shows "symplectic (pauli_from_symplectic v) = v"
    and "map xbit (pauli_from_symplectic v) = take n v"
    and "map zbit (pauli_from_symplectic v) = drop n v"
    and "valid_pauli n (pauli_from_symplectic v)"
proof -
  have l: "length (take n v) = length (drop n v)" and half: "length v div 2 = n"
    using assms by auto
  show x: "map xbit (pauli_from_symplectic v) = take n v"
    unfolding pauli_from_symplectic_def Let_def half by (rule map_xbit_map2[OF l])
  show z: "map zbit (pauli_from_symplectic v) = drop n v"
    unfolding pauli_from_symplectic_def Let_def half by (rule map_zbit_map2[OF l])
  show "symplectic (pauli_from_symplectic v) = v"
    by (simp add: symplectic_def x z)
  show "valid_pauli n (pauli_from_symplectic v)"
    using assms
    by (auto simp: valid_pauli_def pauli_from_symplectic_def Let_def list_all_iff pauli_char_def
        set_zip)
qed

lemma symplectic_identity: "symplectic (replicate n (CHR ''I'')) = zero_vec (2 * n)"
  by (simp add: symplectic_def zero_vec_def xbit_def zbit_def mult_2 replicate_add)

lemma commutes_dot:
  assumes "length Q = length P"
    and "list_all (\<lambda>c. c = CHR ''I'' \<or> c = CHR ''X'' \<or> c = CHR ''Y'' \<or> c = CHR ''Z'') Q"
    and "list_all (\<lambda>c. c = CHR ''I'' \<or> c = CHR ''X'' \<or> c = CHR ''Y'' \<or> c = CHR ''Z'') P"
  shows "commutes Q P = (\<not> dot (map zbit P @ map xbit P) (map xbit Q @ map zbit Q))"
proof -
  have "even (length (filter (\<lambda>(a, b). a \<noteq> CHR ''I'' \<and> b \<noteq> CHR ''I'' \<and> a \<noteq> b) (zip Q P))) =
          (dot (map zbit P) (map xbit Q) = dot (map xbit P) (map zbit Q))"
    using assms
  proof (induction Q P rule: list_induct2)
    case Nil
    then show ?case by simp
  next
    case (Cons q Q p P)
    then have IH: "even (length (filter (\<lambda>(a, b). a \<noteq> CHR ''I'' \<and> b \<noteq> CHR ''I'' \<and> a \<noteq> b) (zip Q P))) =
          (dot (map zbit P) (map xbit Q) = dot (map xbit P) (map zbit Q))"
      by simp
    from Cons.prems have q: "q = CHR ''I'' \<or> q = CHR ''X'' \<or> q = CHR ''Y'' \<or> q = CHR ''Z''"
      and p: "p = CHR ''I'' \<or> p = CHR ''X'' \<or> p = CHR ''Y'' \<or> p = CHR ''Z''"
      by simp_all
    have anti: "(q \<noteq> CHR ''I'' \<and> p \<noteq> CHR ''I'' \<and> q \<noteq> p) = ((zbit p \<and> xbit q) \<noteq> (xbit p \<and> zbit q))"
      using q p by (auto simp: xbit_def zbit_def)
    show ?case
      using IH anti by (cases "q \<noteq> CHR ''I'' \<and> p \<noteq> CHR ''I'' \<and> q \<noteq> p") auto
  qed
  then show ?thesis
    using assms(1) by (auto simp: commutes_def dot_append)
qed

lemma gf2_comb_no_coeff: "True \<notin> set cs \<Longrightarrow> gf2_comb L cs M = zero_vec L"
  by (induction L cs M rule: gf2_comb.induct) auto

lemma gf2_comb_skip:
  "gf2_comb L (replicate (length xs) False @ cs) (xs @ M) = gf2_comb L cs M"
  by (induction xs) auto

lemma gf2_independent_nonzero:
  assumes "gf2_independent L vs"
  shows "zero_vec L \<notin> set vs"
proof
  assume "zero_vec L \<in> set vs"
  then obtain xs ys where vs: "vs = xs @ zero_vec L # ys"
    by (auto dest: split_list)
  let ?cs = "replicate (length xs) False @ True # replicate (length ys) False"
  have "gf2_comb L ?cs vs = vxor (zero_vec L) (gf2_comb L (replicate (length ys) False) ys)"
    unfolding vs by (subst gf2_comb_skip) simp
  also have "\<dots> = zero_vec L"
    by (simp add: gf2_comb_no_coeff vxor_zero_left)
  finally have "gf2_comb L ?cs vs = zero_vec L" .
  moreover have "length ?cs = length vs" by (simp add: vs)
  ultimately have "True \<notin> set ?cs"
    using assms unfolding gf2_independent_def by blast
  then show False by simp
qed

lemma rows_of_length_swap_XZ_blocks:
  "\<forall>P \<in> set ps. valid_pauli n P \<Longrightarrow> rows_of_length (2 * n) (swap_XZ_blocks ps)"
  by (auto simp: rows_of_length_def swap_XZ_blocks_def valid_pauli_def)

lemma dot_no_entry: "\<not> list_ex id r \<Longrightarrow> \<not> dot r v"
proof (induction r arbitrary: v)
  case (Cons x r)
  then show ?case by (cases v) auto
qed simp

lemma kernel_generators_ok:
  assumes valid: "\<forall>P \<in> set ps. valid_pauli n P"
    and rl: "rows_of_length (2 * n) A"
    and sub: "\<And>v. length v = 2 * n \<Longrightarrow> orth v A \<Longrightarrow> orth v (swap_XZ_blocks ps)"
  shows "generator_set_ok n ps (map pauli_from_symplectic (gf2_basis_for_gf2_rref (2 * n) A))"
proof -
  let ?K = "gf2_basis_for_gf2_rref (2 * n) A"
  have rows: "length v = 2 * n \<and> orth v A" if "v \<in> set ?K" for v
    using gf2_basis_rows[OF rl that] .
  have "map symplectic (map pauli_from_symplectic ?K) = map (\<lambda>v. v) ?K"
    unfolding map_map using rows
    by (intro map_cong) (auto simp: symplectic_pauli_from_symplectic(1))
  then have sym: "map symplectic (map pauli_from_symplectic ?K) = ?K"
    by simp
  have ind: "gf2_independent (2 * n) (map symplectic (map pauli_from_symplectic ?K))"
    unfolding sym by (rule gf2_basis_independent)
  have comm: "commutes (pauli_from_symplectic v) P" if v: "v \<in> set ?K" and P: "P \<in> set ps" for v P
  proof -
    from rows[OF v] have lv: "length v = 2 * n" and "orth v A" by simp_all
    then have "orth v (swap_XZ_blocks ps)" by (rule sub)
    with P have nd: "\<not> dot (map zbit P @ map xbit P) v"
      by (auto simp: orth_def swap_XZ_blocks_def)
    note g = symplectic_pauli_from_symplectic[OF lv]
    from valid P have vP: "valid_pauli n P" by simp
    have "commutes (pauli_from_symplectic v) P =
            (\<not> dot (map zbit P @ map xbit P)
                 (map xbit (pauli_from_symplectic v) @ map zbit (pauli_from_symplectic v)))"
      using g(4) vP by (intro commutes_dot) (simp_all add: valid_pauli_def)
    also have "map xbit (pauli_from_symplectic v) @ map zbit (pauli_from_symplectic v) = v"
      by (simp add: g(2,3))
    finally show ?thesis using nd by simp
  qed
  have "replicate n (CHR ''I'') \<notin> set (map pauli_from_symplectic ?K)"
  proof
    assume "replicate n (CHR ''I'') \<in> set (map pauli_from_symplectic ?K)"
    then have "symplectic (replicate n (CHR ''I'')) \<in> set (map symplectic (map pauli_from_symplectic ?K))"
      by (metis image_eqI list.set_map)
    then have "zero_vec (2 * n) \<in> set ?K"
      by (simp only: sym symplectic_identity)
    with gf2_independent_nonzero[OF gf2_basis_independent] show False
      by blast
  qed
  with ind comm show ?thesis
    by (auto simp: generator_set_ok_def)
qed

lemma identify_symmetry_generators_ok:
  assumes valid: "\<forall>P \<in> set ps. valid_pauli n P"
  shows "generator_set_ok n ps (identify_symmetry_generators n ps)"
proof -
  let ?ZX = "swap_XZ_blocks ps"
  have rl: "rows_of_length (2 * n) ?ZX"
    using valid by (rule rows_of_length_swap_XZ_blocks)
  have "rows_of_length (2 * n) (gf2_gaus_elim (2 * n) ?ZX)"
    unfolding gf2_gaus_elim_def using rl by (rule gf2_elim_loop_rows_of_length)
  moreover have "orth v ?ZX" if "length v = 2 * n" "orth v (gf2_gaus_elim (2 * n) ?ZX)" for v
    using that gf2_elim_loop_orth[OF that(1) rl] by (simp add: gf2_gaus_elim_def)
  ultimately show ?thesis
    unfolding identify_symmetry_generators_def Let_def
    by (intro kernel_generators_ok[OF valid]) auto
qed

lemma cs_generators_ok:
  assumes valid: "\<forall>P \<in> set ps. valid_pauli n P"
  shows "generator_set_ok n ps (map pauli_from_symplectic (snd (cs_kernel n ps)))"
proof -
  let ?ZX = "swap_XZ_blocks ps"
  let ?red = "gf2_gaus_elim (2 * n) ?ZX"
  have rl: "rows_of_length (2 * n) ?ZX"
    using valid by (rule rows_of_length_swap_XZ_blocks)
  have "rows_of_length (2 * n) ?red"
    unfolding gf2_gaus_elim_def using rl by (rule gf2_elim_loop_rows_of_length)
  then have rlf: "rows_of_length (2 * n) (filter (list_ex id) ?red)"
    by (simp add: rows_of_length_def)
  have "orth v ?ZX" if lv: "length v = 2 * n" and o: "orth v (filter (list_ex id) ?red)" for v
  proof -
    have "orth v ?red"
      unfolding orth_def
    proof
      fix r assume "r \<in> set ?red"
      with o show "\<not> dot r v"
        by (cases "list_ex id r") (auto simp: orth_def dot_no_entry)
    qed
    then show ?thesis
      using gf2_elim_loop_orth[OF lv rl] by (simp add: gf2_gaus_elim_def)
  qed
  with rlf show ?thesis
    unfolding cs_kernel_def Let_def snd_conv
    by (intro kernel_generators_ok[OF valid]) auto
qed

lemma independent_generators_Inr:
  "independent_generators n ps = Inr (gens, reps) \<Longrightarrow>
     gens = map pauli_from_symplectic (snd (cs_kernel n ps))"
  by (auto simp: independent_generators_def Let_def split: if_splits)

lemma independent_generators_example:
  "independent_generators 2 [''ZZ'', ''XI'', ''ZI''] = Inr ([''IZ''], [''ZI'', ''XI''])"
  by code_simp

text \<open>
  C1. For every Hamiltonian (or noncontextual subset) whose labels are Pauli strings on n
  qubits, the generators returned by \<open>tapering.identify_symmetry_generators\<close>, and the
  generators returned by \<open>cs_vqe.independent_generators\<close> whenever it returns, are linearly
  independent over GF(2) in symplectic form, each commutes (mod phase) with every input term,
  and the all-identity term is not among them.
\<close>

theorem symmetry_generators_ok:
  assumes "\<forall>P \<in> set ps. valid_pauli n P"
  shows "generator_set_ok n ps (identify_symmetry_generators n ps)
         \<and> (\<forall>gens reps. independent_generators n ps = Inr (gens, reps) \<longrightarrow> generator_set_ok n ps gens)"
  using identify_symmetry_generators_ok[OF assms] cs_generators_ok[OF assms]
  by (auto dest: independent_generators_Inr)

theorem symmetry_generators_ok_witness:
  "generator_set_ok 2 [''ZZ'', ''XI'', ''ZI''] (identify_symmetry_generators 2 [''ZZ'', ''XI'', ''ZI''])
   \<and> independent_generators 2 [''ZZ'', ''XI'', ''ZI''] = Inr ([''IZ''], [''ZI'', ''XI''])
   \<and> generator_set_ok 2 [''ZZ'', ''XI'', ''ZI''] [''IZ'']"
proof -
  have v: "\<forall>P \<in> set [''ZZ'', ''XI'', ''ZI'']. valid_pauli 2 P"
    by (simp add: valid_pauli_def)
  from symmetry_generators_ok[OF v] independent_generators_example show ?thesis
    by blast
qed

text \<open>
  C3 (the code fails the claim). The noncontextual set ZZII, IIZI, IIXI (ZZII commutes with
  both other terms, which anticommute) yields three clique representatives; ZZII is one of
  them and commutes with the other two, so distinct representatives need not anticommute.
\<close>

theorem independent_generators_commuting_cliquereps:
  "independent_generators 4 [''ZZII'', ''IIZI'', ''IIXI''] =
     Inr ([''XXII'', ''IIIX'', ''ZIII'', ''IZII'', ''IIIZ''], [''IIZI'', ''IIXI'', ''ZZII''])
   \<and> commutes ''ZZII'' ''IIZI'' \<and> commutes ''ZZII'' ''IIXI'' \<and> \<not> commutes ''IIZI'' ''IIXI''"
  by code_simp

text \<open>
  C5 (the code fails the claim). On the same input the kernel basis holds the rows of ZIII
  and IZII but not their sum, the row of ZZII; that row of the reduced matrix lies in the
  span of the kernel and is kept as a clique candidate, because the test compares it with
  the basis rows one by one.
\<close>

theorem anti_kernel_keeps_row_in_kernel_span:
  "snd (cs_kernel 4 [''ZZII'', ''IIZI'', ''IIXI'']) =
     map symplectic [''XXII'', ''IIIX'', ''ZIII'', ''IZII'', ''IIIZ'']
   \<and> anti_kernel_rows 4 (fst (cs_kernel 4 [''ZZII'', ''IIZI'', ''IIXI'']))
        (snd (cs_kernel 4 [''ZZII'', ''IIZI'', ''IIXI''])) =
     map symplectic [''ZZII'', ''IIZI'', ''IIXI'']
   \<and> symplectic ''ZZII'' = vxor (symplectic ''ZIII'') (symplectic ''IZII'')"
  by code_simp

section \<open>The tapering instance and its projection state\<close>

text \<open>
  Modelled from the spec: the parent class \<open>S3_projection\<close> is not among the source files.
  By section 4.5 of the spec it is constructed from the stabilizers, their eigenvalues and
  the target single-qubit Pauli, and these three make up the projection state that later
  projections read; its constructor is modelled as storing them. \<open>QubitOp.n_qubits\<close> is the
  common length of the labels. \<open>measure_operator\<close> (\<open>utils/operator_toolkit\<close>) is a parameter.
  The Hamiltonian dictionary is the list of its items; a tapering instance is the record of
  its attributes, the inherited ones first.
\<close>

record s3_projection =
  stabilizers :: "pauli list"
  eigenvalues :: "real list"
  target_sqp :: char

record tapering = s3_projection +
  hamiltonian :: "(pauli \<times> real) list"
  n_qubits :: nat
  ref_state :: "nat list"
  symmetry_ops :: "pauli list"
  symmetry_sec :: "real list"
  n_taper :: nat

definition S3_projection_init ::
  "pauli list \<Rightarrow> real list \<Rightarrow> char \<Rightarrow> 'a s3_projection_scheme \<Rightarrow> 'a s3_projection_scheme" where
  \<comment> \<open>Modelled from the spec: \<open>S3_projection.__init__(stabilizers, eigenvalues, target_sqp)\<close>.\<close>
  "S3_projection_init stabs eigs sqp self =
     self\<lparr>stabilizers := stabs, eigenvalues := eigs, target_sqp := sqp\<rparr>"

definition qubit_count :: "(pauli \<times> real) list \<Rightarrow> nat" where
  \<comment> \<open>Modelled from the spec: \<open>QubitOp(hamiltonian).n_qubits\<close>.\<close>
  "qubit_count ham = (case ham of [] \<Rightarrow> 0 | (P, c) # rest \<Rightarrow> length P)"

definition identify_symmetry_sector :: "(pauli \<Rightarrow> nat list \<Rightarrow> real) \<Rightarrow> nat list \<Rightarrow> pauli list \<Rightarrow> real list" where
  "identify_symmetry_sector measure_operator ref ops = map (\<lambda>pauli. measure_operator pauli ref) ops"

definition tapering_init ::
  "(pauli \<Rightarrow> nat list \<Rightarrow> real) \<Rightarrow> (pauli \<times> real) list \<Rightarrow> nat list \<Rightarrow> char \<Rightarrow> py_error + tapering" where
  "tapering_init measure_operator ham ref sqp =
     (let n = qubit_count ham in
      if length ref \<noteq> n then Inl AssertionError
      else
        (let ops = identify_symmetry_generators n (map fst ham);
             sec = identify_symmetry_sector measure_operator ref ops
         in Inr (S3_projection_init ops sec sqp
                   \<lparr>stabilizers = [], eigenvalues = [], target_sqp = sqp,
                    hamiltonian = ham, n_qubits = n, ref_state = ref,
                    symmetry_ops = ops, symmetry_sec = sec, n_taper = length ops\<rparr>)))"

definition update_S3_projection :: "tapering \<Rightarrow> real list \<Rightarrow> tapering" where
  "update_S3_projection self symmetry_sector =
     S3_projection_init (symmetry_ops self) symmetry_sector (target_sqp self) self"

lemma identify_symmetry_generators_example:
  "identify_symmetry_generators 2 [''ZZ'', ''XX''] = [''XX'', ''ZZ'']"
  by code_simp

text \<open>
  C10. \<open>update_S3_projection(s)\<close> changes only the inherited projection state: the
  stabilizers are set to \<open>symmetry_ops\<close>, the eigenvalues to \<open>s\<close>, the target Pauli is kept;
  \<open>hamiltonian\<close>, \<open>ref_state\<close>, \<open>n_qubits\<close>, \<open>symmetry_ops\<close>, \<open>symmetry_sec\<close> and \<open>n_taper\<close> are
  unchanged. For an instance built by the constructor, \<open>symmetry_sec\<close> is still the sector
  measured on the reference state, not \<open>s\<close>.
\<close>

theorem update_S3_projection_frame:
  "hamiltonian (update_S3_projection self s) = hamiltonian self
   \<and> ref_state (update_S3_projection self s) = ref_state self
   \<and> n_qubits (update_S3_projection self s) = n_qubits self
   \<and> symmetry_ops (update_S3_projection self s) = symmetry_ops self
   \<and> symmetry_sec (update_S3_projection self s) = symmetry_sec self
   \<and> n_taper (update_S3_projection self s) = n_taper self
   \<and> target_sqp (update_S3_projection self s) = target_sqp self
   \<and> stabilizers (update_S3_projection self s) = symmetry_ops self
   \<and> eigenvalues (update_S3_projection self s) = s
   \<and> (tapering_init measure_operator ham ref sqp = Inr self \<longrightarrow>
        symmetry_sec (update_S3_projection self s) =
          identify_symmetry_sector measure_operator ref
            (identify_symmetry_generators (qubit_count ham) (map fst ham)))"
  by (auto simp: update_S3_projection_def S3_projection_init_def tapering_init_def Let_def
      split: if_splits)

theorem update_S3_projection_frame_witness:
  "tapering_init (\<lambda>P r. 1) [(''ZZ'', 1), (''XX'', 1/2)] [0, 1] (CHR ''X'') =
     Inr \<lparr>stabilizers = [''XX'', ''ZZ''], eigenvalues = [1, 1], target_sqp = CHR ''X'',
          hamiltonian = [(''ZZ'', 1), (''XX'', 1/2)], n_qubits = 2, ref_state = [0, 1],
          symmetry_ops = [''XX'', ''ZZ''], symmetry_sec = [1, 1], n_taper = 2\<rparr>
   \<and> symmetry_sec (update_S3_projection
        \<lparr>stabilizers = [''XX'', ''ZZ''], eigenvalues = [1, 1], target_sqp = CHR ''X'',
         hamiltonian = [(''ZZ'', 1), (''XX'', 1/2)], n_qubits = 2, ref_state = [0, 1],
         symmetry_ops = [''XX'', ''ZZ''], symmetry_sec = [1, 1], n_taper = 2\<rparr> [-1, -1]) = [1, 1]
   \<and> eigenvalues (update_S3_projection
        \<lparr>stabilizers = [''XX'', ''ZZ''], eigenvalues = [1, 1], target_sqp = CHR ''X'',
         hamiltonian = [(''ZZ'', 1), (''XX'', 1/2)], n_qubits = 2, ref_state = [0, 1],
         symmetry_ops = [''XX'', ''ZZ''], symmetry_sec = [1, 1], n_taper = 2\<rparr> [-1, -1]) = [-1, -1]"
proof -
  let ?self = "\<lparr>stabilizers = [''XX'', ''ZZ''], eigenvalues = [1, 1], target_sqp = CHR ''X'',
         hamiltonian = [(''ZZ'', 1), (''XX'', 1/2)], n_qubits = 2, ref_state = [0, 1],
         symmetry_ops = [''XX'', ''ZZ''], symmetry_sec = [1, 1], n_taper = 2\<rparr>"
  have gens: "identify_symmetry_generators (Suc (Suc 0)) [''ZZ'', ''XX''] = [''XX'', ''ZZ'']"
    using identify_symmetry_generators_example by (simp add: numeral_2_eq_2)
  have init: "tapering_init (\<lambda>P r. 1) [(''ZZ'', 1), (''XX'', 1/2)] [0, 1] (CHR ''X'') = Inr ?self"
    by (simp add: tapering_init_def qubit_count_def gens identify_symmetry_sector_def
        S3_projection_init_def Let_def numeral_2_eq_2)
  from update_S3_projection_frame[of ?self "[-1, -1]" "\<lambda>P r. 1" "[(''ZZ'', 1), (''XX'', 1/2)]" "[0, 1]" "CHR ''X''"]
    init
  show ?thesis
    by (simp add: qubit_count_def gens identify_symmetry_sector_def)
qed

end
